theory Spec2Isabelle
  imports Complex_Main
begin

section \<open>Configuration (config.py)\<close>

text \<open>
  Python floats are modelled as \<^typ>\<open>real\<close>, Python ints as \<^typ>\<open>int\<close>.
  Every exception the modelled code can raise is a value of \<open>py_error\<close>, and a fallible
  function returns \<open>py_error + 'a\<close> with \<open>Inl\<close> for the exception.
\<close>

datatype py_error = ZeroDivisionError | IndexError | KeyError | StopIteration

datatype Direction = NORTH | SOUTH | EAST | WEST

record TimingConstraints =
  min_green_s :: real
  max_green_s :: real
  yellow_clearance_s :: real
  all_red_clearance_s :: real
  startup_lost_time_s :: real
  min_protected_left_green_s :: real
  max_protected_left_green_s :: real
  left_turn_queue_threshold :: int
  min_walk_s :: real
  ped_clearance_speed_ft_per_s :: real
  default_crosswalk_distance_ft :: real
  min_cycle_s :: real
  max_cycle_s :: real
  default_cycle_s :: real

text \<open>The dataclass defaults of \<open>TimingConstraints\<close>.\<close>

definition default_timing :: TimingConstraints where
  "default_timing =
     \<lparr> min_green_s = 7, max_green_s = 60, yellow_clearance_s = 4,
       all_red_clearance_s = 5 / 2, startup_lost_time_s = 2,
       min_protected_left_green_s = 8, max_protected_left_green_s = 25,
       left_turn_queue_threshold = 3, min_walk_s = 7,
       ped_clearance_speed_ft_per_s = 7 / 2, default_crosswalk_distance_ft = 48,
       min_cycle_s = 45, max_cycle_s = 150, default_cycle_s = 90 \<rparr>"

text \<open>
  The property \<open>ped_clearance_s\<close> divides two floats; Python raises
  \<open>ZeroDivisionError\<close> when the walking speed is zero.
\<close>

definition ped_clearance_s :: "TimingConstraints \<Rightarrow> py_error + real" where
  "ped_clearance_s c =
     (if ped_clearance_speed_ft_per_s c = 0 then Inl ZeroDivisionError
      else Inr (default_crosswalk_distance_ft c / ped_clearance_speed_ft_per_s c))"

section \<open>Intersection model (models/intersection.py)\<close>

datatype LaneType = THROUGH | LEFT_TURN

record Lane =
  direction :: Direction
  lane_type :: LaneType
  saturation_flow :: real
  queue_count :: int
  arrival_rate :: real
  last_updated :: real

definition saturation_flow_per_sec :: "Lane \<Rightarrow> real" where
  "saturation_flow_per_sec l = saturation_flow l / 3600"

text \<open>The division raises \<open>ZeroDivisionError\<close> for a lane without saturation flow.\<close>

definition green_time_to_clear :: "Lane \<Rightarrow> real \<Rightarrow> py_error + real" where
  "green_time_to_clear l startup_lost =
     (if queue_count l \<le> 0 then Inr 0
      else if saturation_flow_per_sec l = 0 then Inl ZeroDivisionError
      else Inr (real_of_int (queue_count l) / saturation_flow_per_sec l + startup_lost))"

record Approach =
  direction :: Direction
  through_lane :: Lane
  left_turn_lane :: Lane
  has_pedestrian_crossing :: bool
  crosswalk_distance_ft :: real

text \<open>\<open>approaches\<close> is a dictionary; a lookup of a missing direction raises
  \<open>KeyError\<close>.\<close>

record Intersection =
  name :: string
  approaches :: "Direction \<Rightarrow> Approach option"

definition approach :: "Intersection \<Rightarrow> Direction \<Rightarrow> py_error + Approach" where
  "approach isec d = (case approaches isec d of None \<Rightarrow> Inl KeyError | Some a \<Rightarrow> Inr a)"

section \<open>Phases (models/signal.py)\<close>

datatype PhaseType = THROUGH | LEFT_TURN

record Phase =
  phase_id :: int
  phase_type :: PhaseType
  served_directions :: "Direction list"
  is_left_turn :: bool
  green_time_s :: real
  yellow_time_s :: real
  all_red_time_s :: real
  walk_time_s :: real
  ped_clearance_time_s :: real
  use_protected_left :: bool

definition total_phase_time_s :: "Phase \<Rightarrow> real" where
  "total_phase_time_s p = green_time_s p + yellow_time_s p + all_red_time_s p"

section \<open>Timing enforcer (timing/constraints.py)\<close>

text \<open>
  \<open>TimingEnforcer.enforce\<close> mutates the phase in place and returns it; the model
  returns the updated phase. The only statement that can raise is the read of
  \<open>c.ped_clearance_s\<close> on the pedestrian branch.
\<close>

definition enforce :: "TimingConstraints \<Rightarrow> Phase \<Rightarrow> py_error + Phase" where
  "enforce c phase =
     (let min_g = (if is_left_turn phase then min_protected_left_green_s c else min_green_s c);
          max_g = (if is_left_turn phase then max_protected_left_green_s c else max_green_s c);
          p1 = phase\<lparr>green_time_s := max min_g (min max_g (green_time_s phase))\<rparr>;
          p2 = p1\<lparr>yellow_time_s := yellow_clearance_s c\<rparr>;
          p3 = p2\<lparr>all_red_time_s := all_red_clearance_s c\<rparr>
      in if \<not> is_left_turn p3 then
           (let p4 = p3\<lparr>walk_time_s := max (min_walk_s c) (walk_time_s p3)\<rparr>
            in case ped_clearance_s c of
                 Inl e \<Rightarrow> Inl e
               | Inr pc \<Rightarrow>
                   (let p5 = p4\<lparr>ped_clearance_time_s := pc\<rparr>;
                        min_ped_green = walk_time_s p5 + ped_clearance_time_s p5
                    in Inr (if green_time_s p5 < min_ped_green
                            then p5\<lparr>green_time_s := min_ped_green\<rparr> else p5)))
         else Inr p3)"

section \<open>Adaptive timing engine: cycle length (timing/adaptive.py)\<close>

text \<open>The field \<open>phase_id\<close> of \<open>PhaseDemand\<close> is \<open>demand_phase_id\<close> here.\<close>

record PhaseDemand =
  demand_phase_id :: int
  total_queue :: int
  ideal_green_s :: real
  degree_of_saturation :: real
  needs_protected_left :: bool

definition compute_cycle_length :: "TimingConstraints \<Rightarrow> PhaseDemand list \<Rightarrow> real" where
  "compute_cycle_length c demands =
     (let total_lost = real (length demands) * (yellow_clearance_s c + all_red_clearance_s c);
          avg_ds = sum_list (map degree_of_saturation demands) / max 1 (real (length demands));
          y = min (9 / 10) avg_ds;
          cycle = (if y < 5 / 100 then min_cycle_s c
                   else (3 / 2 * total_lost + 5) / (1 - y))
      in max (min_cycle_s c) (min (max_cycle_s c) cycle))"

text \<open>
  The quantities of the specification's Webster formula, written from its words: the mean
  of the smoothed degrees of saturation (0 for an empty list of demands, where the code's
  guard divides by 1), the capped flow ratio \<open>Y\<close> and the total lost time.
\<close>

definition mean_ds :: "PhaseDemand list \<Rightarrow> real" where
  "mean_ds demands =
     (if demands = [] then 0
      else sum_list (map degree_of_saturation demands) / real (length demands))"

definition webster_Y :: "PhaseDemand list \<Rightarrow> real" where
  "webster_Y demands = min (9 / 10) (mean_ds demands)"

definition webster_total_lost :: "TimingConstraints \<Rightarrow> PhaseDemand list \<Rightarrow> real" where
  "webster_total_lost c demands =
     real (length demands) * (yellow_clearance_s c + all_red_clearance_s c)"

definition clamp_cycle :: "TimingConstraints \<Rightarrow> real \<Rightarrow> real" where
  "clamp_cycle c x = max (min_cycle_s c) (min (max_cycle_s c) x)"

section \<open>Signal state machine (models/signal.py)\<close>

datatype SignalState = RED | GREEN | YELLOW | GREEN_ARROW | YELLOW_ARROW | FLASHING_YELLOW
  | ALL_RED | DARK | WALK | PED_CLEARANCE | DONT_WALK

record PhaseRing =
  phases :: "Phase list"

text \<open>
  Python list indexing: a negative index counts from the end, and an index out of range
  raises \<open>IndexError\<close>.
\<close>

definition py_index :: "'a list \<Rightarrow> int \<Rightarrow> py_error + 'a" where
  "py_index xs i =
     (if 0 \<le> i \<and> i < int (length xs) then Inr (xs ! nat i)
      else if i < 0 \<and> - int (length xs) \<le> i then Inr (xs ! nat (int (length xs) + i))
      else Inl IndexError)"

definition create_standard_4way :: "TimingConstraints \<Rightarrow> py_error + PhaseRing" where
  "create_standard_4way timing =
     (case ped_clearance_s timing of
        Inl e \<Rightarrow> Inl e
      | Inr ped_clearance \<Rightarrow>
          Inr \<lparr> phases =
            [\<lparr> phase_id = 1, phase_type = LEFT_TURN, served_directions = [NORTH, SOUTH],
               is_left_turn = True, green_time_s = min_protected_left_green_s timing,
               yellow_time_s = yellow_clearance_s timing,
               all_red_time_s = all_red_clearance_s timing,
               walk_time_s = 0, ped_clearance_time_s = 0, use_protected_left = False \<rparr>,
             \<lparr> phase_id = 2, phase_type = THROUGH, served_directions = [NORTH, SOUTH],
               is_left_turn = False, green_time_s = min_green_s timing,
               yellow_time_s = yellow_clearance_s timing,
               all_red_time_s = all_red_clearance_s timing,
               walk_time_s = min_walk_s timing, ped_clearance_time_s = ped_clearance,
               use_protected_left = False \<rparr>,
             \<lparr> phase_id = 3, phase_type = LEFT_TURN, served_directions = [EAST, WEST],
               is_left_turn = True, green_time_s = min_protected_left_green_s timing,
               yellow_time_s = yellow_clearance_s timing,
               all_red_time_s = all_red_clearance_s timing,
               walk_time_s = 0, ped_clearance_time_s = 0, use_protected_left = False \<rparr>,
             \<lparr> phase_id = 4, phase_type = THROUGH, served_directions = [EAST, WEST],
               is_left_turn = False, green_time_s = min_green_s timing,
               yellow_time_s = yellow_clearance_s timing,
               all_red_time_s = all_red_clearance_s timing,
               walk_time_s = min_walk_s timing, ped_clearance_time_s = ped_clearance,
               use_protected_left = False \<rparr>] \<rparr>)"

definition next_phase_index :: "PhaseRing \<Rightarrow> int \<Rightarrow> py_error + int" where
  "next_phase_index ring current =
     (if length (phases ring) = 0 then Inl ZeroDivisionError
      else Inr ((current + 1) mod int (length (phases ring))))"

datatype PhaseStep = GREEN | FLASHING_YELLOW | YELLOW | ALL_RED

record SignalHead =
  direction :: Direction
  vehicle_signal :: SignalState
  left_turn_signal :: SignalState
  pedestrian_signal :: SignalState

text \<open>
  The controller's runtime state. \<open>signal_heads\<close> is the dictionary that
  \<open>__post_init__\<close> fills for all four directions, so it is a total function here. The
  three callbacks are \<open>None\<close> (their dataclass default) and are not part of the state;
  the clock reading \<open>time.monotonic()\<close> is passed as an argument wherever the code
  reads it.
\<close>

record SignalController =
  phase_ring :: PhaseRing
  timing :: TimingConstraints
  current_phase_idx :: int
  current_step :: PhaseStep
  step_start_time :: real
  cycle_count :: int
  is_preempted :: bool
  preemption_direction :: "Direction option"
  signal_heads :: "Direction \<Rightarrow> SignalHead"

definition current_phase :: "SignalController \<Rightarrow> py_error + Phase" where
  "current_phase s = py_index (phases (phase_ring s)) (current_phase_idx s)"

definition set_all_red :: "(Direction \<Rightarrow> SignalHead) \<Rightarrow> (Direction \<Rightarrow> SignalHead)" where
  "set_all_red hs =
     (\<lambda>d. (hs d)\<lparr>vehicle_signal := SignalState.RED, left_turn_signal := SignalState.RED,
                  pedestrian_signal := DONT_WALK\<rparr>)"

text \<open>The body of the loop over \<open>phase.served_directions\<close> in
  \<open>_apply_signals_for_current_state\<close>, for one direction.\<close>

definition apply_direction ::
  "Phase \<Rightarrow> PhaseStep \<Rightarrow> (Direction \<Rightarrow> SignalHead) \<Rightarrow> Direction \<Rightarrow> (Direction \<Rightarrow> SignalHead)" where
  "apply_direction phase step hs d =
     (let head = hs d
      in hs(d :=
           (if step = PhaseStep.GREEN then
              (if is_left_turn phase then
                 (if use_protected_left phase
                  then head\<lparr>left_turn_signal := GREEN_ARROW\<rparr>
                  else head\<lparr>left_turn_signal := SignalState.FLASHING_YELLOW\<rparr>)
               else head\<lparr>vehicle_signal := SignalState.GREEN,
                         left_turn_signal := SignalState.FLASHING_YELLOW,
                         pedestrian_signal := WALK\<rparr>)
            else if step = PhaseStep.FLASHING_YELLOW then
              head\<lparr>left_turn_signal := SignalState.FLASHING_YELLOW\<rparr>
            else if step = PhaseStep.YELLOW then
              (if is_left_turn phase then head\<lparr>left_turn_signal := YELLOW_ARROW\<rparr>
               else head\<lparr>vehicle_signal := SignalState.YELLOW,
                         left_turn_signal := SignalState.RED,
                         pedestrian_signal := PED_CLEARANCE\<rparr>)
            else head)))"

definition apply_signals_for_current_state :: "SignalController \<Rightarrow> py_error + SignalController" where
  "apply_signals_for_current_state s =
     (case current_phase s of
        Inl e \<Rightarrow> Inl e
      | Inr phase \<Rightarrow>
          (let hs = set_all_red (signal_heads s)
           in if current_step s = PhaseStep.ALL_RED then Inr (s\<lparr>signal_heads := hs\<rparr>)
              else Inr (s\<lparr>signal_heads :=
                            foldl (apply_direction phase (current_step s)) hs
                                  (served_directions phase)\<rparr>)))"

text \<open>
  \<open>_current_step_duration\<close>; \<open>None\<close> stands for \<open>float("inf")\<close>, the duration of
  the green step while preempted.
\<close>

definition current_step_duration :: "SignalController \<Rightarrow> py_error + real option" where
  "current_step_duration s =
     (case current_phase s of
        Inl e \<Rightarrow> Inl e
      | Inr phase \<Rightarrow>
          Inr (if is_preempted s \<and> current_step s = PhaseStep.GREEN then None
               else (case current_step s of
                       PhaseStep.GREEN \<Rightarrow> Some (green_time_s phase)
                     | PhaseStep.FLASHING_YELLOW \<Rightarrow> Some (green_time_s phase)
                     | PhaseStep.YELLOW \<Rightarrow> Some (yellow_time_s phase)
                     | PhaseStep.ALL_RED \<Rightarrow> Some (all_red_time_s phase))))"

definition in_green_directions :: "(Direction \<Rightarrow> SignalHead) \<Rightarrow> Direction \<Rightarrow> bool" where
  "in_green_directions hs d \<longleftrightarrow>
     vehicle_signal (hs d) = SignalState.GREEN \<or> vehicle_signal (hs d) = SignalState.YELLOW
     \<or> left_turn_signal (hs d) = GREEN_ARROW"

definition CONFLICTING_PAIRS :: "(Direction \<times> Direction) list" where
  "CONFLICTING_PAIRS = [(NORTH, EAST), (NORTH, WEST), (SOUTH, EAST), (SOUTH, WEST)]"

definition has_conflict :: "(Direction \<Rightarrow> SignalHead) \<Rightarrow> bool" where
  "has_conflict hs \<longleftrightarrow>
     list_ex (\<lambda>(d1, d2). in_green_directions hs d1 \<and> in_green_directions hs d2)
             CONFLICTING_PAIRS"

definition enter_fault_mode :: "SignalController \<Rightarrow> SignalController" where
  "enter_fault_mode s =
     s\<lparr>signal_heads :=
         (\<lambda>d. (signal_heads s d)\<lparr>vehicle_signal := SignalState.ALL_RED,
                                  left_turn_signal := SignalState.ALL_RED,
                                  pedestrian_signal := DONT_WALK\<rparr>)\<rparr>"

definition check_conflicts :: "SignalController \<Rightarrow> SignalController" where
  "check_conflicts s = (if has_conflict (signal_heads s) then enter_fault_mode s else s)"

definition enter_preemption_phase :: "real \<Rightarrow> SignalController \<Rightarrow> SignalController" where
  "enter_preemption_phase now s =
     (let hs = set_all_red (signal_heads s);
          hs' = (case preemption_direction s of
                   None \<Rightarrow> hs
                 | Some d \<Rightarrow> hs(d := (hs d)\<lparr>vehicle_signal := SignalState.GREEN\<rparr>))
      in s\<lparr>signal_heads := hs', current_step := PhaseStep.GREEN, step_start_time := now\<rparr>)"

definition advance_to_next_phase :: "real \<Rightarrow> SignalController \<Rightarrow> py_error + SignalController" where
  "advance_to_next_phase now s =
     (let prev_idx = current_phase_idx s
      in case next_phase_index (phase_ring s) prev_idx of
           Inl e \<Rightarrow> Inl e
         | Inr idx \<Rightarrow>
             (case apply_signals_for_current_state
                     (s\<lparr>current_phase_idx := idx, current_step := PhaseStep.GREEN,
                        step_start_time := now\<rparr>) of
                Inl e \<Rightarrow> Inl e
              | Inr s' \<Rightarrow>
                  Inr (if current_phase_idx s' = 0 \<and> prev_idx \<noteq> 0
                       then s'\<lparr>cycle_count := cycle_count s' + 1\<rparr> else s')))"

definition advance_step :: "real \<Rightarrow> SignalController \<Rightarrow> py_error + SignalController" where
  "advance_step now s =
     (case current_phase s of
        Inl e \<Rightarrow> Inl e
      | Inr phase \<Rightarrow>
          (let continue = (\<lambda>step'. apply_signals_for_current_state
                                      (s\<lparr>current_step := step', step_start_time := now\<rparr>))
           in case current_step s of
                PhaseStep.GREEN \<Rightarrow>
                  (if is_left_turn phase \<and> \<not> use_protected_left phase
                   then continue PhaseStep.YELLOW
                   else continue PhaseStep.YELLOW)
              | PhaseStep.FLASHING_YELLOW \<Rightarrow> continue PhaseStep.YELLOW
              | PhaseStep.YELLOW \<Rightarrow> continue PhaseStep.ALL_RED
              | PhaseStep.ALL_RED \<Rightarrow>
                  (if is_preempted s \<and> preemption_direction s \<noteq> None
                   then Inr (enter_preemption_phase now s)
                   else advance_to_next_phase now s)))"

definition tick :: "real \<Rightarrow> SignalController \<Rightarrow> py_error + SignalController" where
  "tick now s =
     (let elapsed = now - step_start_time s
      in case current_step_duration s of
           Inl e \<Rightarrow> Inl e
         | Inr duration \<Rightarrow>
             (case (if (case duration of None \<Rightarrow> False | Some d \<Rightarrow> elapsed \<ge> d)
                    then advance_step now s else Inr s) of
                Inl e \<Rightarrow> Inl e
              | Inr s' \<Rightarrow> Inr (check_conflicts s')))"

text \<open>\<open>request_preemption\<close> reads the clock itself; \<open>now\<close> is that reading.\<close>

definition request_preemption ::
  "Direction \<Rightarrow> real \<Rightarrow> SignalController \<Rightarrow> py_error + SignalController" where
  "request_preemption d now s =
     (if is_preempted s then Inr s
      else
        (let s1 = s\<lparr>is_preempted := True, preemption_direction := Some d\<rparr>
         in if current_step s1 = PhaseStep.GREEN \<or> current_step s1 = PhaseStep.FLASHING_YELLOW
            then apply_signals_for_current_state
                   (s1\<lparr>current_step := PhaseStep.YELLOW, step_start_time := now\<rparr>)
            else Inr s1))"

definition clear_preemption :: "SignalController \<Rightarrow> SignalController" where
  "clear_preemption s = s\<lparr>is_preempted := False, preemption_direction := None\<rparr>"

text \<open>
  Construction with the dataclass defaults followed by \<open>__post_init__\<close>; \<open>t0\<close> is the
  clock reading of the \<open>step_start_time\<close> default factory.
\<close>

definition new_controller ::
  "PhaseRing \<Rightarrow> TimingConstraints \<Rightarrow> real \<Rightarrow> py_error + SignalController" where
  "new_controller ring c t0 =
     apply_signals_for_current_state
       \<lparr> phase_ring = ring, timing = c, current_phase_idx = 0,
         current_step = PhaseStep.GREEN, step_start_time = t0, cycle_count = 0,
         is_preempted = False, preemption_direction = None,
         signal_heads = (\<lambda>d. \<lparr> SignalHead.direction = d, vehicle_signal = SignalState.RED,
                                 left_turn_signal = SignalState.RED,
                                 pedestrian_signal = DONT_WALK \<rparr>) \<rparr>"

text \<open>
  The calls an owner of the controller can make, and a run of them from a state. A run
  stops at the first exception.
\<close>

datatype event = Tick real | RequestPreemption Direction real | ClearPreemption

fun step_event :: "event \<Rightarrow> SignalController \<Rightarrow> py_error + SignalController" where
  "step_event (Tick now) s = tick now s"
| "step_event (RequestPreemption d now) s = request_preemption d now s"
| "step_event ClearPreemption s = Inr (clear_preemption s)"

fun run :: "SignalController \<Rightarrow> event list \<Rightarrow> py_error + SignalController" where
  "run s [] = Inr s"
| "run s (e # es) = (case step_event e s of Inl err \<Rightarrow> Inl err | Inr s' \<Rightarrow> run s' es)"

text \<open>Served directions of a phase never contain a conflicting pair (N+S or E+W).\<close>

definition non_conflicting :: "Direction list \<Rightarrow> bool" where
  "non_conflicting ds \<longleftrightarrow>
     \<not> list_ex (\<lambda>(d1, d2). d1 \<in> set ds \<and> d2 \<in> set ds) CONFLICTING_PAIRS"

definition valid_ring :: "PhaseRing \<Rightarrow> bool" where
  "valid_ring ring \<longleftrightarrow>
     phases ring \<noteq> [] \<and> list_all (\<lambda>p. non_conflicting (served_directions p)) (phases ring)"

text \<open>The invariant of the runs: the phase index is in range, the ring is valid and no
  conflicting pair is displayed.\<close>

definition idx_ok :: "SignalController \<Rightarrow> bool" where
  "idx_ok s \<longleftrightarrow> 0 \<le> current_phase_idx s \<and> current_phase_idx s < int (length (phases (phase_ring s)))"

definition safe_state :: "SignalController \<Rightarrow> bool" where
  "safe_state s \<longleftrightarrow> idx_ok s \<and> valid_ring (phase_ring s) \<and> \<not> has_conflict (signal_heads s)"

text \<open>
  Observations of a run. A direction's head shows green when its vehicle head is green
  or its left-turn head shows the green arrow. \<open>trace_state\<close> is the controller after
  the first \<open>n\<close> events of a run that starts at construction; \<open>green_at\<close>,
  \<open>step_at\<close>, \<open>vehicle_at\<close> and \<open>left_turn_at\<close> read there whether a
  direction shows green, the sub-state, and the vehicle and left-turn heads of a
  direction.
\<close>

definition shows_green :: "(Direction \<Rightarrow> SignalHead) \<Rightarrow> Direction \<Rightarrow> bool" where
  "shows_green hs d \<longleftrightarrow>
     vehicle_signal (hs d) = SignalState.GREEN \<or> left_turn_signal (hs d) = GREEN_ARROW"

definition trace_state ::
  "PhaseRing \<Rightarrow> TimingConstraints \<Rightarrow> real \<Rightarrow> event list \<Rightarrow> nat \<Rightarrow> py_error + SignalController" where
  "trace_state ring c t0 evs n =
     (case new_controller ring c t0 of Inl e \<Rightarrow> Inl e | Inr s0 \<Rightarrow> run s0 (take n evs))"

definition green_at ::
  "PhaseRing \<Rightarrow> TimingConstraints \<Rightarrow> real \<Rightarrow> event list \<Rightarrow> nat \<Rightarrow> Direction \<Rightarrow> bool" where
  "green_at ring c t0 evs n d =
     (case trace_state ring c t0 evs n of
        Inl e \<Rightarrow> False | Inr s \<Rightarrow> shows_green (signal_heads s) d)"

definition step_at ::
  "PhaseRing \<Rightarrow> TimingConstraints \<Rightarrow> real \<Rightarrow> event list \<Rightarrow> nat \<Rightarrow> PhaseStep option" where
  "step_at ring c t0 evs n =
     (case trace_state ring c t0 evs n of Inl e \<Rightarrow> None | Inr s \<Rightarrow> Some (current_step s))"

definition vehicle_at ::
  "PhaseRing \<Rightarrow> TimingConstraints \<Rightarrow> real \<Rightarrow> event list \<Rightarrow> nat \<Rightarrow> Direction
     \<Rightarrow> SignalState option" where
  "vehicle_at ring c t0 evs n d =
     (case trace_state ring c t0 evs n of
        Inl e \<Rightarrow> None | Inr s \<Rightarrow> Some (vehicle_signal (signal_heads s d)))"

definition left_turn_at ::
  "PhaseRing \<Rightarrow> TimingConstraints \<Rightarrow> real \<Rightarrow> event list \<Rightarrow> nat \<Rightarrow> Direction
     \<Rightarrow> SignalState option" where
  "left_turn_at ring c t0 evs n d =
     (case trace_state ring c t0 evs n of
        Inl e \<Rightarrow> None | Inr s \<Rightarrow> Some (left_turn_signal (signal_heads s d)))"

text \<open>The order in which the sub-states follow one another.\<close>

fun next_step :: "PhaseStep \<Rightarrow> PhaseStep" where
  "next_step PhaseStep.GREEN = PhaseStep.YELLOW"
| "next_step PhaseStep.FLASHING_YELLOW = PhaseStep.YELLOW"
| "next_step PhaseStep.YELLOW = PhaseStep.ALL_RED"
| "next_step PhaseStep.ALL_RED = PhaseStep.GREEN"

text \<open>Every head that shows green does so in the green sub-state.\<close>

definition green_only_in_green :: "SignalController \<Rightarrow> bool" where
  "green_only_in_green s \<longleftrightarrow>
     (\<forall>d. shows_green (signal_heads s) d \<longrightarrow> current_step s = PhaseStep.GREEN)"

text \<open>One call moves the sub-state by at most one position, keeps the invariant, and
  cannot turn a head green while the sub-state stays green.\<close>

definition one_step :: "SignalController \<Rightarrow> SignalController \<Rightarrow> bool" where
  "one_step s s' \<longleftrightarrow>
     (current_step s' = current_step s \<or> current_step s' = next_step (current_step s)) \<and>
     (green_only_in_green s \<longrightarrow> green_only_in_green s') \<and>
     (current_step s = PhaseStep.GREEN \<and> current_step s' = PhaseStep.GREEN \<longrightarrow>
        (\<forall>d. shows_green (signal_heads s') d \<longrightarrow> shows_green (signal_heads s) d))"

section \<open>Conflict monitor (safety/conflict.py)\<close>

text \<open>
  The monitor holds a reference to the signal controller and reads its heads; the field
  \<open>_consecutive_clean\<close> is \<open>consecutive_clean\<close> here. The computation of the green
  set and the list of conflicting pairs in \<open>check\<close> are those of the controller's own
  \<open>_check_conflicts\<close>, written a second time in the source.
\<close>

record ConflictMonitor =
  fault_active :: bool
  conflict_count :: int
  last_check_time :: real
  clean_checks_to_clear :: int
  consecutive_clean :: int

text \<open>\<open>ConflictMonitor(signal_controller=...)\<close> created at clock reading \<open>t0\<close>.\<close>

definition new_monitor :: "int \<Rightarrow> real \<Rightarrow> ConflictMonitor" where
  "new_monitor n t0 =
     \<lparr> fault_active = False, conflict_count = 0, last_check_time = t0,
       clean_checks_to_clear = n, consecutive_clean = 0 \<rparr>"

definition on_conflict_detected ::
  "Direction \<Rightarrow> Direction \<Rightarrow> ConflictMonitor \<Rightarrow> SignalController
     \<Rightarrow> ConflictMonitor \<times> SignalController" where
  "on_conflict_detected d1 d2 m sc =
     (let m1 = m\<lparr>conflict_count := conflict_count m + 1\<rparr>;
          m2 = m1\<lparr>consecutive_clean := 0\<rparr>
      in if \<not> fault_active m2 then (m2\<lparr>fault_active := True\<rparr>, enter_fault_mode sc)
         else (m2, sc))"

text \<open>
  One call of \<open>check\<close> at clock reading \<open>now\<close>: the returned flag, the monitor and
  the controller it refers to.
\<close>

definition check ::
  "real \<Rightarrow> ConflictMonitor \<Rightarrow> SignalController \<Rightarrow> bool \<times> ConflictMonitor \<times> SignalController" where
  "check now m sc =
     (let m0 = m\<lparr>last_check_time := now\<rparr>
      in case find (\<lambda>(d1, d2). in_green_directions (signal_heads sc) d1 \<and>
                              in_green_directions (signal_heads sc) d2) CONFLICTING_PAIRS of
           Some (d1, d2) \<Rightarrow> (False, on_conflict_detected d1 d2 m0 sc)
         | None \<Rightarrow>
             (if fault_active m0 then
                (let m1 = m0\<lparr>consecutive_clean := consecutive_clean m0 + 1\<rparr>
                 in if consecutive_clean m1 \<ge> clean_checks_to_clear m1
                    then (True, m1\<lparr>fault_active := False, consecutive_clean := 0\<rparr>, sc)
                    else (True, m1, sc))
              else (True, m0, sc)))"

text \<open>
  A sequence of checks. Between two checks the controller is ticked, preempted or written
  to from outside, so each check comes with the clock reading and the controller as it is
  at that moment; the monitor is what is carried from one check to the next.
\<close>

fun run_checks :: "ConflictMonitor \<Rightarrow> (real \<times> SignalController) list \<Rightarrow> ConflictMonitor" where
  "run_checks m [] = m"
| "run_checks m ((now, sc) # rest) = run_checks (fst (snd (check now m sc))) rest"

definition clean :: "(real \<times> SignalController) list \<Rightarrow> bool" where
  "clean obs \<longleftrightarrow> list_all (\<lambda>(now, sc). \<not> has_conflict (signal_heads sc)) obs"

section \<open>Preemption manager (safety/preemption.py)\<close>

record PreemptionEvent =
  direction :: Direction
  requested_at :: real
  activated_at :: "real option"
  cleared_at :: "real option"
  min_hold_s :: real

definition is_active :: "PreemptionEvent \<Rightarrow> bool" where
  "is_active e \<longleftrightarrow> activated_at e \<noteq> None \<and> cleared_at e = None"

definition hold_elapsed_s :: "real \<Rightarrow> PreemptionEvent \<Rightarrow> real" where
  "hold_elapsed_s now e = (case activated_at e of None \<Rightarrow> 0 | Some t \<Rightarrow> now - t)"

text \<open>
  The manager's own fields; the signal controller it refers to is passed next to it and
  returned with it. \<open>pending\<close> is the deque, oldest request first. Each operation is
  given one clock reading \<open>now\<close>, which stands for every \<open>time.monotonic()\<close> read
  during that call.
\<close>

record PreemptionManager =
  max_hold_s :: real
  pending :: "PreemptionEvent list"
  active_event :: "PreemptionEvent option"
  history :: "PreemptionEvent list"

definition new_manager :: "real \<Rightarrow> PreemptionManager" where
  "new_manager mh = \<lparr> max_hold_s = mh, pending = [], active_event = None, history = [] \<rparr>"

definition activate ::
  "real \<Rightarrow> PreemptionEvent \<Rightarrow> PreemptionManager \<times> SignalController
     \<Rightarrow> py_error + PreemptionManager \<times> SignalController" where
  "activate now event = (\<lambda>(m, sc).
     (let ev = event\<lparr>activated_at := Some now\<rparr>;
          m' = m\<lparr>active_event := Some ev\<rparr>
      in case request_preemption (direction ev) now sc of
           Inl e \<Rightarrow> Inl e
         | Inr sc' \<Rightarrow> Inr (m', sc')))"

definition request ::
  "Direction \<Rightarrow> real \<Rightarrow> real \<Rightarrow> PreemptionManager \<times> SignalController
     \<Rightarrow> py_error + PreemptionManager \<times> SignalController" where
  "request dir hold now = (\<lambda>(m, sc).
     (let event = \<lparr> direction = dir, requested_at = now, activated_at = None,
                     cleared_at = None, min_hold_s = hold \<rparr>
      in if active_event m \<noteq> None then Inr (m\<lparr>pending := pending m @ [event]\<rparr>, sc)
         else activate now event (m, sc)))"

definition clear ::
  "real \<Rightarrow> PreemptionManager \<times> SignalController
     \<Rightarrow> py_error + PreemptionManager \<times> SignalController" where
  "clear now = (\<lambda>(m, sc).
     (case active_event m of
        None \<Rightarrow> Inr (m, sc)
      | Some a \<Rightarrow>
          (let m1 = m\<lparr>history := history m @ [a\<lparr>cleared_at := Some now\<rparr>]\<rparr>;
               m2 = m1\<lparr>active_event := None\<rparr>;
               sc' = clear_preemption sc
           in case pending m2 of
                [] \<Rightarrow> Inr (m2, sc')
              | e # rest \<Rightarrow> activate now e (m2\<lparr>pending := rest\<rparr>, sc'))))"

definition manager_tick ::
  "real \<Rightarrow> PreemptionManager \<times> SignalController
     \<Rightarrow> py_error + PreemptionManager \<times> SignalController" where
  "manager_tick now = (\<lambda>(m, sc).
     (case active_event m of
        None \<Rightarrow>
          (case pending m of
             [] \<Rightarrow> Inr (m, sc)
           | e # rest \<Rightarrow> activate now e (m\<lparr>pending := rest\<rparr>, sc))
      | Some a \<Rightarrow>
          (if hold_elapsed_s now a \<ge> max_hold_s m then clear now (m, sc)
           else Inr (m, sc))))"

text \<open>The calls on a manager, and a run of them; a run stops at the first exception.\<close>

datatype manager_call = Request Direction real real | ManagerTick real | Clear real

fun manager_step ::
  "manager_call \<Rightarrow> PreemptionManager \<times> SignalController
     \<Rightarrow> py_error + PreemptionManager \<times> SignalController" where
  "manager_step (Request dir hold now) st = request dir hold now st"
| "manager_step (ManagerTick now) st = manager_tick now st"
| "manager_step (Clear now) st = clear now st"

fun manager_run ::
  "PreemptionManager \<times> SignalController \<Rightarrow> manager_call list
     \<Rightarrow> py_error + PreemptionManager \<times> SignalController" where
  "manager_run st [] = Inr st"
| "manager_run st (c # cs) =
     (case manager_step c st of Inl err \<Rightarrow> Inl err | Inr st' \<Rightarrow> manager_run st' cs)"

text \<open>Every event the manager holds, and the state of each kind of event.\<close>

definition all_events :: "PreemptionManager \<Rightarrow> PreemptionEvent list" where
  "all_events m =
     pending m @ (case active_event m of None \<Rightarrow> [] | Some a \<Rightarrow> [a]) @ history m"

definition lifecycle_ok :: "PreemptionManager \<Rightarrow> bool" where
  "lifecycle_ok m \<longleftrightarrow>
     list_all (\<lambda>e. activated_at e = None \<and> cleared_at e = None) (pending m) \<and>
     list_all (\<lambda>e. cleared_at e \<noteq> None) (history m) \<and>
     (case active_event m of None \<Rightarrow> True | Some a \<Rightarrow> is_active a)"

section \<open>Adaptive timing engine: demands, green splits, application (timing/adaptive.py)\<close>

text \<open>
  Cycle-level enforcement (timing/constraints.py): \<open>enforce\<close> on every phase, then a
  proportional scaling of the greens when the cycle is shorter than the minimum or longer
  than the maximum, each scaled phase being enforced again.
\<close>

fun enforce_all :: "TimingConstraints \<Rightarrow> Phase list \<Rightarrow> py_error + Phase list" where
  "enforce_all c [] = Inr []"
| "enforce_all c (p # ps) =
     (case enforce c p of
        Inl e \<Rightarrow> Inl e
      | Inr q \<Rightarrow> (case enforce_all c ps of Inl e \<Rightarrow> Inl e | Inr qs \<Rightarrow> Inr (q # qs)))"

definition extend_to_minimum ::
  "TimingConstraints \<Rightarrow> Phase list \<Rightarrow> real \<Rightarrow> py_error + Phase list" where
  "extend_to_minimum c ps current_total =
     (let fixed_time = sum_list (map (\<lambda>p. yellow_time_s p + all_red_time_s p) ps);
          green_time = current_total - fixed_time;
          target_green = min_cycle_s c - fixed_time
      in if green_time \<le> 0 then Inr ps
         else (let ratio = target_green / green_time
               in enforce_all c (map (\<lambda>p. p\<lparr>green_time_s := green_time_s p * ratio\<rparr>) ps)))"

definition reduce_to_maximum ::
  "TimingConstraints \<Rightarrow> Phase list \<Rightarrow> real \<Rightarrow> py_error + Phase list" where
  "reduce_to_maximum c ps current_total =
     (let fixed_time = sum_list (map (\<lambda>p. yellow_time_s p + all_red_time_s p) ps);
          green_time = current_total - fixed_time;
          target_green = max_cycle_s c - fixed_time
      in if green_time \<le> 0 then Inr ps
         else (let ratio = target_green / green_time
               in enforce_all c (map (\<lambda>p. p\<lparr>green_time_s := green_time_s p * ratio\<rparr>) ps)))"

definition enforce_cycle :: "TimingConstraints \<Rightarrow> Phase list \<Rightarrow> py_error + Phase list" where
  "enforce_cycle c ps =
     (case enforce_all c ps of
        Inl e \<Rightarrow> Inl e
      | Inr qs \<Rightarrow>
          (let total = sum_list (map total_phase_time_s qs)
           in if total < min_cycle_s c then extend_to_minimum c qs total
              else if total > max_cycle_s c then reduce_to_maximum c qs total
              else Inr qs))"

text \<open>
  A Python dictionary with integer keys as an association list in insertion order:
  assigning to a key that is present replaces its value in place.
\<close>

fun dict_set :: "(int \<times> 'v) list \<Rightarrow> int \<Rightarrow> 'v \<Rightarrow> (int \<times> 'v) list" where
  "dict_set [] k v = [(k, v)]"
| "dict_set ((k', v') # kvs) k v =
     (if k' = k then (k, v) # kvs else (k', v') # dict_set kvs k v)"

record CyclePlan =
  cycle_length_s :: real
  phase_demands :: "PhaseDemand list"
  phase_greens :: "(int \<times> real) list"
  computed_at :: real

text \<open>The engine; its enforcer is \<open>TimingEnforcer(timing)\<close>, and \<open>_prev_ds\<close> is
  \<open>prev_ds\<close>.\<close>

record AdaptiveTimingEngine =
  intersection :: Intersection
  timing :: TimingConstraints
  smoothing_alpha :: real
  prev_ds :: "int \<Rightarrow> real option"

text \<open>
  The loop over the served directions in \<open>_compute_demands\<close>; the accumulator is
  \<open>(total_queue, max_ideal_green, left_turn_total)\<close>.
\<close>

fun demand_loop ::
  "Intersection \<Rightarrow> TimingConstraints \<Rightarrow> Phase \<Rightarrow> Direction list \<Rightarrow> int \<times> real \<times> int
     \<Rightarrow> py_error + int \<times> real \<times> int" where
  "demand_loop isec c phase [] acc = Inr acc"
| "demand_loop isec c phase (d # ds) (tq, mig, ltt) =
     (case approach isec d of
        Inl e \<Rightarrow> Inl e
      | Inr a \<Rightarrow>
          (let lane = (if is_left_turn phase then left_turn_lane a else through_lane a);
               ltt' = (if is_left_turn phase then ltt + queue_count lane else ltt);
               tq' = tq + queue_count lane
           in case green_time_to_clear lane (startup_lost_time_s c) of
                Inl e \<Rightarrow> Inl e
              | Inr ideal \<Rightarrow> demand_loop isec c phase ds (tq', max mig ideal, ltt')))"

text \<open>The body of the loop over the phases: the demand of one phase and the engine with
  the smoothed degree of saturation stored.\<close>

definition phase_demand ::
  "AdaptiveTimingEngine \<Rightarrow> Phase \<Rightarrow> py_error + PhaseDemand \<times> AdaptiveTimingEngine" where
  "phase_demand eng phase =
     (case demand_loop (intersection eng) (timing eng) phase (served_directions phase) (0, 0, 0) of
        Inl e \<Rightarrow> Inl e
      | Inr (tq, mig, ltt) \<Rightarrow>
          (case py_index (served_directions phase) 0 of
             Inl e \<Rightarrow> Inl e
           | Inr d0 \<Rightarrow>
               (case approaches (intersection eng) d0 of
                  None \<Rightarrow> Inl KeyError
                | Some a0 \<Rightarrow>
                    (let current_green = green_time_s phase;
                         ds = (if \<not> is_left_turn phase
                               then real_of_int tq /
                                      max 1 (current_green * saturation_flow_per_sec (through_lane a0))
                               else real_of_int tq /
                                      max 1 (current_green * saturation_flow_per_sec (left_turn_lane a0)));
                         prev = (case prev_ds eng (phase_id phase) of None \<Rightarrow> ds | Some v \<Rightarrow> v);
                         smoothed_ds = smoothing_alpha eng * ds + (1 - smoothing_alpha eng) * prev;
                         eng' = eng\<lparr>prev_ds := (prev_ds eng)(phase_id phase \<mapsto> smoothed_ds)\<rparr>;
                         needs_protected =
                           (is_left_turn phase \<and> ltt \<ge> left_turn_queue_threshold (timing eng))
                     in Inr (\<lparr> demand_phase_id = phase_id phase, total_queue = tq,
                               ideal_green_s = mig, degree_of_saturation = smoothed_ds,
                               needs_protected_left = needs_protected \<rparr>, eng')))))"

fun compute_demands ::
  "AdaptiveTimingEngine \<Rightarrow> Phase list \<Rightarrow> py_error + PhaseDemand list \<times> AdaptiveTimingEngine" where
  "compute_demands eng [] = Inr ([], eng)"
| "compute_demands eng (p # ps) =
     (case phase_demand eng p of
        Inl e \<Rightarrow> Inl e
      | Inr (d, eng1) \<Rightarrow>
          (case compute_demands eng1 ps of
             Inl e \<Rightarrow> Inl e
           | Inr (ds, eng2) \<Rightarrow> Inr (d # ds, eng2)))"

text \<open>The weight of one demand in \<open>_allocate_green_splits\<close>; \<open>next(...)\<close> raises
  \<open>StopIteration\<close> when no phase of the ring has the demand's id.\<close>

definition phase_weight :: "TimingConstraints \<Rightarrow> PhaseRing \<Rightarrow> PhaseDemand \<Rightarrow> py_error + real" where
  "phase_weight c ring demand =
     (let weight = (if total_queue demand = 0 then min_green_s c
                    else max (min_green_s c) (ideal_green_s demand))
      in case find (\<lambda>p. phase_id p = demand_phase_id demand) (phases ring) of
           None \<Rightarrow> Inl StopIteration
         | Some phase \<Rightarrow>
             Inr (if is_left_turn phase \<and> \<not> needs_protected_left demand
                  then min_protected_left_green_s c * (1 / 2) else weight))"

fun weights_loop ::
  "TimingConstraints \<Rightarrow> PhaseRing \<Rightarrow> PhaseDemand list \<Rightarrow> (int \<times> real) list
     \<Rightarrow> py_error + (int \<times> real) list" where
  "weights_loop c ring [] weights = Inr weights"
| "weights_loop c ring (d # ds) weights =
     (case phase_weight c ring d of
        Inl e \<Rightarrow> Inl e
      | Inr w \<Rightarrow> weights_loop c ring ds (dict_set weights (demand_phase_id d) w))"

definition allocate_green_splits ::
  "TimingConstraints \<Rightarrow> PhaseDemand list \<Rightarrow> real \<Rightarrow> PhaseRing \<Rightarrow> py_error + (int \<times> real) list" where
  "allocate_green_splits c demands cycle_length ring =
     (let total_fixed = sum_list (map (\<lambda>p. yellow_time_s p + all_red_time_s p) (phases ring));
          available_green = max 0 (cycle_length - total_fixed)
      in case weights_loop c ring demands [] of
           Inl e \<Rightarrow> Inl e
         | Inr weights \<Rightarrow>
             (let total_weight = sum_list (map snd weights);
                  total_weight' = (if total_weight \<le> 0 then 1 else total_weight)
              in Inr (map (\<lambda>(pid, weight). (pid, (weight / total_weight') * available_green))
                          weights)))"

definition compute_cycle_plan ::
  "AdaptiveTimingEngine \<Rightarrow> PhaseRing \<Rightarrow> py_error + CyclePlan \<times> AdaptiveTimingEngine" where
  "compute_cycle_plan eng ring =
     (case compute_demands eng (phases ring) of
        Inl e \<Rightarrow> Inl e
      | Inr (demands, eng') \<Rightarrow>
          (let cycle_length = compute_cycle_length (timing eng') demands
           in case allocate_green_splits (timing eng') demands cycle_length ring of
                Inl e \<Rightarrow> Inl e
              | Inr greens \<Rightarrow>
                  Inr (\<lparr> cycle_length_s = cycle_length, phase_demands = demands,
                          phase_greens = greens, computed_at = 0 \<rparr>, eng')))"

text \<open>The body of the loop over the phases in \<open>apply_plan\<close>.\<close>

definition apply_to_phase :: "CyclePlan \<Rightarrow> Phase \<Rightarrow> Phase" where
  "apply_to_phase plan phase =
     (let p1 = (case map_of (phase_greens plan) (phase_id phase) of
                  Some g \<Rightarrow> phase\<lparr>green_time_s := g\<rparr>
                | None \<Rightarrow> phase)
      in case find (\<lambda>d. demand_phase_id d = phase_id p1) (phase_demands plan) of
           Some d \<Rightarrow> p1\<lparr>use_protected_left := needs_protected_left d\<rparr>
         | None \<Rightarrow> p1)"

definition apply_plan ::
  "AdaptiveTimingEngine \<Rightarrow> CyclePlan \<Rightarrow> PhaseRing \<Rightarrow> py_error + PhaseRing" where
  "apply_plan eng plan ring =
     (case enforce_cycle (timing eng) (map (apply_to_phase plan) (phases ring)) of
        Inl e \<Rightarrow> Inl e
      | Inr ps \<Rightarrow> Inr (ring\<lparr>phases := ps\<rparr>))"

text \<open>Two phases of one kind, the first with no less green and no less walk time.\<close>

definition no_less :: "Phase \<Rightarrow> Phase \<Rightarrow> bool" where
  "no_less a b \<longleftrightarrow>
     is_left_turn a = is_left_turn b \<and> green_time_s b \<le> green_time_s a \<and>
     (\<not> is_left_turn a \<longrightarrow> walk_time_s b \<le> walk_time_s a)"

text \<open>The weight the allocation gives to a demand whose phase is known.\<close>

definition weight_of :: "TimingConstraints \<Rightarrow> Phase \<Rightarrow> PhaseDemand \<Rightarrow> real" where
  "weight_of c phase demand =
     (if is_left_turn phase \<and> \<not> needs_protected_left demand
      then min_protected_left_green_s c * (1 / 2)
      else if total_queue demand = 0 then min_green_s c
      else max (min_green_s c) (ideal_green_s demand))"

section \<open>Concrete inputs\<close>

definition ex_through :: Phase where
  "ex_through =
     \<lparr> phase_id = 2, phase_type = THROUGH, served_directions = [NORTH, SOUTH],
       is_left_turn = False, green_time_s = 999, yellow_time_s = 99, all_red_time_s = 0,
       walk_time_s = 50, ped_clearance_time_s = 14, use_protected_left = False \<rparr>"

definition ex_left :: Phase where
  "ex_left =
     \<lparr> phase_id = 1, phase_type = LEFT_TURN, served_directions = [NORTH, SOUTH],
       is_left_turn = True, green_time_s = 40, yellow_time_s = 3, all_red_time_s = 1,
       walk_time_s = 0, ped_clearance_time_s = 0, use_protected_left = True \<rparr>"

definition ex_left_enforced :: Phase where
  "ex_left_enforced = ex_left\<lparr>green_time_s := 25, yellow_time_s := 4, all_red_time_s := 5 / 2\<rparr>"

definition ex_demand :: "int \<Rightarrow> PhaseDemand" where
  "ex_demand i =
     \<lparr> demand_phase_id = i, total_queue = 4, ideal_green_s = 10,
       degree_of_saturation = 1 / 2, needs_protected_left = False \<rparr>"

definition ex_demands :: "PhaseDemand list" where
  "ex_demands = [ex_demand 1, ex_demand 2, ex_demand 3, ex_demand 4]"

definition ex_ring :: PhaseRing where
  "ex_ring =
     \<lparr> phases =
        [\<lparr> phase_id = 1, phase_type = LEFT_TURN, served_directions = [NORTH, SOUTH],
           is_left_turn = True, green_time_s = 8, yellow_time_s = 4, all_red_time_s = 5 / 2,
           walk_time_s = 0, ped_clearance_time_s = 0, use_protected_left = False \<rparr>,
         \<lparr> phase_id = 2, phase_type = THROUGH, served_directions = [NORTH, SOUTH],
           is_left_turn = False, green_time_s = 7, yellow_time_s = 4, all_red_time_s = 5 / 2,
           walk_time_s = 7, ped_clearance_time_s = 96 / 7, use_protected_left = False \<rparr>,
         \<lparr> phase_id = 3, phase_type = LEFT_TURN, served_directions = [EAST, WEST],
           is_left_turn = True, green_time_s = 8, yellow_time_s = 4, all_red_time_s = 5 / 2,
           walk_time_s = 0, ped_clearance_time_s = 0, use_protected_left = False \<rparr>,
         \<lparr> phase_id = 4, phase_type = THROUGH, served_directions = [EAST, WEST],
           is_left_turn = False, green_time_s = 7, yellow_time_s = 4, all_red_time_s = 5 / 2,
           walk_time_s = 7, ped_clearance_time_s = 96 / 7, use_protected_left = False \<rparr>] \<rparr>"

text \<open>
  A run on the standard ring: the first phase times out, the north-south through phase
  turns green, a preemption for north is requested during that green, and the clearance
  runs before the preemption hold.
\<close>

definition ex_events :: "event list" where
  "ex_events =
     [Tick 8, Tick 12, Tick (29 / 2), RequestPreemption NORTH 15, Tick 19, Tick (43 / 2)]"

text \<open>A controller in a preemption hold for east, and the ticks that carry a fresh
  controller from its first green into the green of the second phase.\<close>

definition ex_preempted :: SignalController where
  "ex_preempted =
     \<lparr> phase_ring = ex_ring, timing = default_timing, current_phase_idx = 1,
       current_step = PhaseStep.GREEN, step_start_time = 43 / 2, cycle_count = 0,
       is_preempted = True, preemption_direction = Some EAST,
       signal_heads =
         (\<lambda>d. \<lparr> SignalHead.direction = d,
                 vehicle_signal = (if d = EAST then SignalState.GREEN else SignalState.RED),
                 left_turn_signal = SignalState.RED, pedestrian_signal = DONT_WALK \<rparr>) \<rparr>"

definition ex_fault_events :: "event list" where
  "ex_fault_events = [Tick 8, Tick 12, Tick (29 / 2)]"

text \<open>
  A preemption for east on the standard ring built at time 0: the request during the first
  green, the clearance, the hold, the clear, and then ticks at the ends of the sub-states
  until the east-west through phase turns green.
\<close>

definition ex_hold_events :: "event list" where
  "ex_hold_events =
     [RequestPreemption EAST 1, Tick 5, Tick (15 / 2), ClearPreemption,
      Tick 20, Tick 24, Tick (53 / 2), Tick (67 / 2), Tick (75 / 2), Tick 40,
      Tick 48, Tick 52, Tick (109 / 2)]"

text \<open>A controller whose heads were written from outside so that north and east are
  both green, and the monitor (threshold 50) after the check that sees it.\<close>

definition ex_conflict :: SignalController where
  "ex_conflict =
     ex_preempted\<lparr>signal_heads :=
       (\<lambda>d. \<lparr> SignalHead.direction = d,
               vehicle_signal =
                 (if d = NORTH \<or> d = EAST then SignalState.GREEN else SignalState.RED),
               left_turn_signal = SignalState.RED, pedestrian_signal = DONT_WALK \<rparr>)\<rparr>"

definition ex_latched :: ConflictMonitor where
  "ex_latched = fst (snd (check 0 (new_monitor 50 0) ex_conflict))"

text \<open>The standard controller right after construction at time 0, and two preemption
  requests in a row (scenario S6).\<close>

definition ex_initial :: SignalController where
  "ex_initial =
     \<lparr> phase_ring = ex_ring, timing = default_timing, current_phase_idx = 0,
       current_step = PhaseStep.GREEN, step_start_time = 0, cycle_count = 0,
       is_preempted = False, preemption_direction = None,
       signal_heads =
         (\<lambda>d. \<lparr> SignalHead.direction = d, vehicle_signal = SignalState.RED,
                 left_turn_signal =
                   (if d = NORTH \<or> d = SOUTH then SignalState.FLASHING_YELLOW
                    else SignalState.RED),
                 pedestrian_signal = DONT_WALK \<rparr>) \<rparr>"

definition ex_calls :: "manager_call list" where
  "ex_calls = [Request NORTH 10 1, Request EAST 10 2]"

text \<open>
  The standard intersection (saturation flows 1800 and 1600 veh/h) with 20 vehicles on
  each of the north and south through lanes, 39 on the east through lane and none
  elsewhere, and a fresh engine on it.
\<close>

definition ex_lane :: "Direction \<Rightarrow> LaneType \<Rightarrow> real \<Rightarrow> int \<Rightarrow> Lane" where
  "ex_lane d k flow q =
     \<lparr> Lane.direction = d, lane_type = k, saturation_flow = flow, queue_count = q,
       arrival_rate = 0, last_updated = 0 \<rparr>"

definition ex_approach :: "Direction \<Rightarrow> int \<Rightarrow> Approach" where
  "ex_approach d q =
     \<lparr> Approach.direction = d, through_lane = ex_lane d LaneType.THROUGH 1800 q,
       left_turn_lane = ex_lane d LaneType.LEFT_TURN 1600 0,
       has_pedestrian_crossing = True, crosswalk_distance_ft = 48 \<rparr>"

definition ex_intersection :: Intersection where
  "ex_intersection =
     \<lparr> name = ''Main & 1st'',
       approaches = (\<lambda>d. Some (ex_approach d
                      (case d of NORTH \<Rightarrow> 20 | SOUTH \<Rightarrow> 20 | EAST \<Rightarrow> 39 | WEST \<Rightarrow> 0))) \<rparr>"

definition ex_engine :: AdaptiveTimingEngine where
  "ex_engine =
     \<lparr> intersection = ex_intersection, timing = default_timing, smoothing_alpha = 6 / 10,
       prev_ds = (\<lambda>k. None) \<rparr>"

text \<open>Scenario S1: through queues north 15, south 12, east 2, west 1; no left-turn
  queues.\<close>

definition ex_intersection_s1 :: Intersection where
  "ex_intersection_s1 =
     \<lparr> name = ''Main & 1st'',
       approaches = (\<lambda>d. Some (ex_approach d
                      (case d of NORTH \<Rightarrow> 15 | SOUTH \<Rightarrow> 12 | EAST \<Rightarrow> 2 | WEST \<Rightarrow> 1))) \<rparr>"

definition ex_engine_s1 :: AdaptiveTimingEngine where
  "ex_engine_s1 =
     \<lparr> intersection = ex_intersection_s1, timing = default_timing, smoothing_alpha = 6 / 10,
       prev_ds = (\<lambda>k. None) \<rparr>"

section \<open>Properties of the timing enforcer\<close>

lemma enforce_left_turn:
  "is_left_turn p \<Longrightarrow>
     enforce c p = Inr (p\<lparr>green_time_s :=
                            max (min_protected_left_green_s c)
                                (min (max_protected_left_green_s c) (green_time_s p)),
                          yellow_time_s := yellow_clearance_s c,
                          all_red_time_s := all_red_clearance_s c\<rparr>)"
  by (simp add: enforce_def)

lemma enforce_through:
  assumes "\<not> is_left_turn p" and "ped_clearance_speed_ft_per_s c \<noteq> 0"
  shows "enforce c p =
           Inr (p\<lparr>green_time_s :=
                     max (max (min_green_s c) (min (max_green_s c) (green_time_s p)))
                         (max (min_walk_s c) (walk_time_s p)
                          + default_crosswalk_distance_ft c / ped_clearance_speed_ft_per_s c),
                   yellow_time_s := yellow_clearance_s c,
                   all_red_time_s := all_red_clearance_s c,
                   walk_time_s := max (min_walk_s c) (walk_time_s p),
                   ped_clearance_time_s :=
                     default_crosswalk_distance_ft c / ped_clearance_speed_ft_per_s c\<rparr>)"
  using assms by (simp add: enforce_def ped_clearance_s_def Let_def max_def)

lemma enforce_through_raises:
  "\<not> is_left_turn p \<Longrightarrow> ped_clearance_speed_ft_per_s c = 0 \<Longrightarrow>
     enforce c p = Inl ZeroDivisionError"
  by (simp add: enforce_def ped_clearance_s_def Let_def)

lemma enforce_keeps_kind: "enforce c p = Inr q \<Longrightarrow> is_left_turn q = is_left_turn p"
  by (cases "is_left_turn p"; cases "ped_clearance_speed_ft_per_s c = 0")
     (auto simp: enforce_left_turn enforce_through enforce_through_raises)

lemma clamp_idem: "max a (min b (max a (min b (x::real)))) = max a (min b x)"
  by (simp add: max_def min_def)

lemma clamp_extend_idem:
  "max (max a (min b (max (max a (min b x)) (s::real)))) s = max (max a (min b x)) s"
  by (simp add: max_def min_def)

text \<open>
  C3 (pedestrian containment). For a phase that is not a left-turn phase, \<open>enforce\<close>
  returns whenever the walking speed is not zero, and in the phase it returns the walk
  time plus the pedestrian clearance time is at most the green time, for every input
  timing of the phase; the maximum green is not a hypothesis, so this holds also where
  the green has to exceed it.
\<close>

theorem enforce_ped_containment:
  assumes "\<not> is_left_turn p" and "ped_clearance_speed_ft_per_s c \<noteq> 0"
  shows "\<exists>q. enforce c p = Inr q \<and>
             walk_time_s q + ped_clearance_time_s q \<le> green_time_s q"
  using assms by (simp add: enforce_through)

theorem enforce_ped_containment_witness:
  "\<not> is_left_turn ex_through \<and> ped_clearance_speed_ft_per_s default_timing \<noteq> 0 \<and>
   (\<exists>q. enforce default_timing ex_through = Inr q \<and>
        walk_time_s q + ped_clearance_time_s q \<le> green_time_s q \<and>
        max_green_s default_timing < green_time_s q)"
proof -
  have h1: "\<not> is_left_turn ex_through" by (simp add: ex_through_def)
  have h2: "ped_clearance_speed_ft_per_s default_timing \<noteq> 0"
    by (simp add: default_timing_def)
  from enforce_ped_containment [OF h1 h2]
  obtain q where q: "enforce default_timing ex_through = Inr q"
    "walk_time_s q + ped_clearance_time_s q \<le> green_time_s q" by blast
  have "enforce default_timing ex_through =
      Inr (ex_through\<lparr>green_time_s := 446 / 7, yellow_time_s := 4, all_red_time_s := 5 / 2,
             walk_time_s := 50, ped_clearance_time_s := 96 / 7\<rparr>)"
    by (simp add: enforce_through [OF h1 h2]) (simp add: ex_through_def default_timing_def)
  with q have "max_green_s default_timing < green_time_s q"
    by (auto simp: default_timing_def)
  with q h1 h2 show ?thesis by blast
qed

text \<open>
  C4 (enforcer idempotence). Whenever \<open>enforce\<close> returns a phase, enforcing that phase
  again returns it unchanged, in every field and for both kinds of phase. (When the first
  call raises there is no phase to enforce again.)
\<close>

theorem enforce_idempotent: "enforce c p = Inr q \<Longrightarrow> enforce c q = Inr q"
proof (cases "is_left_turn p")
  case True
  assume "enforce c p = Inr q"
  with True show ?thesis
    by (auto simp: enforce_left_turn clamp_idem)
next
  case False
  assume e: "enforce c p = Inr q"
  with False have nz: "ped_clearance_speed_ft_per_s c \<noteq> 0"
    by (auto simp: enforce_through_raises)
  from e False nz have q:
    "q = p\<lparr>green_time_s :=
             max (max (min_green_s c) (min (max_green_s c) (green_time_s p)))
                 (max (min_walk_s c) (walk_time_s p)
                  + default_crosswalk_distance_ft c / ped_clearance_speed_ft_per_s c),
           yellow_time_s := yellow_clearance_s c,
           all_red_time_s := all_red_clearance_s c,
           walk_time_s := max (min_walk_s c) (walk_time_s p),
           ped_clearance_time_s :=
             default_crosswalk_distance_ft c / ped_clearance_speed_ft_per_s c\<rparr>"
    by (simp add: enforce_through)
  have nl: "\<not> is_left_turn q" using q False by simp
  show ?thesis
    unfolding enforce_through [OF nl nz]
    by (simp add: q clamp_extend_idem)
qed

theorem enforce_idempotent_witness:
  "enforce default_timing ex_left = Inr ex_left_enforced \<and>
   enforce default_timing ex_left_enforced = Inr ex_left_enforced \<and>
   ex_left_enforced \<noteq> ex_left"
proof -
  have e: "enforce default_timing ex_left = Inr ex_left_enforced"
    by (simp add: enforce_def ex_left_def ex_left_enforced_def default_timing_def)
  have "ex_left_enforced \<noteq> ex_left"
    by (simp add: ex_left_def ex_left_enforced_def)
  with e enforce_idempotent [OF e] show ?thesis by simp
qed

section \<open>Properties of the cycle length\<close>

lemma avg_is_mean:
  "sum_list (map degree_of_saturation demands) / max 1 (real (length demands))
     = mean_ds demands"
proof (cases demands)
  case Nil
  then show ?thesis by (simp add: mean_ds_def)
next
  case (Cons d ds)
  then have "max 1 (real (length demands)) = real (length demands)" by simp
  with Cons show ?thesis by (simp add: mean_ds_def)
qed

lemma compute_cycle_length_webster:
  "compute_cycle_length c demands =
     clamp_cycle c (if webster_Y demands < 5 / 100 then min_cycle_s c
                    else (3 / 2 * webster_total_lost c demands + 5) / (1 - webster_Y demands))"
  unfolding compute_cycle_length_def Let_def avg_is_mean
  by (simp add: webster_Y_def webster_total_lost_def clamp_cycle_def)

text \<open>
  C5 (Webster cycle length). With \<open>Y\<close> the mean smoothed degree of saturation capped at
  0.90 and the total lost time the number of phases times yellow plus all-red clearance:
  below \<open>Y = 0.05\<close> the cycle length is the minimum cycle; otherwise it is
  \<open>(1.5 L + 5) / (1 - Y)\<close> clamped by \<open>max min_cycle (min max_cycle _)\<close>; and the result
  lies between the minimum and the maximum cycle whenever these are ordered.
\<close>

theorem cycle_length_webster:
  "(webster_Y demands < 5 / 100 \<longrightarrow> compute_cycle_length c demands = min_cycle_s c) \<and>
   (\<not> webster_Y demands < 5 / 100 \<longrightarrow>
      compute_cycle_length c demands =
        clamp_cycle c ((3 / 2 * webster_total_lost c demands + 5) / (1 - webster_Y demands))) \<and>
   (min_cycle_s c \<le> max_cycle_s c \<longrightarrow>
      min_cycle_s c \<le> compute_cycle_length c demands \<and>
      compute_cycle_length c demands \<le> max_cycle_s c)"
  unfolding compute_cycle_length_webster
  by (auto simp: clamp_cycle_def)

theorem cycle_length_webster_witness:
  "webster_Y [] < 5 / 100 \<and>
   compute_cycle_length default_timing [] = 45 \<and>
   \<not> webster_Y ex_demands < 5 / 100 \<and>
   (3 / 2 * webster_total_lost default_timing ex_demands + 5) / (1 - webster_Y ex_demands) = 88 \<and>
   compute_cycle_length default_timing ex_demands = 88 \<and>
   min_cycle_s default_timing \<le> max_cycle_s default_timing"
proof -
  have y0: "webster_Y [] < 5 / 100" by (simp add: webster_Y_def mean_ds_def)
  have y1: "webster_Y ex_demands = 1 / 2"
    by (simp add: webster_Y_def mean_ds_def ex_demands_def ex_demand_def)
  have l1: "webster_total_lost default_timing ex_demands = 26"
    by (simp add: webster_total_lost_def ex_demands_def default_timing_def)
  have b: "min_cycle_s default_timing \<le> max_cycle_s default_timing"
    by (simp add: default_timing_def)
  from cycle_length_webster [of "[]" default_timing] y0
  have c0: "compute_cycle_length default_timing [] = 45"
    by (simp add: default_timing_def)
  from cycle_length_webster [of ex_demands default_timing, unfolded y1 l1]
  have c1: "compute_cycle_length default_timing ex_demands = 88"
    by (simp add: clamp_cycle_def default_timing_def)
  have f: "(3 / 2 * webster_total_lost default_timing ex_demands + 5)
             / (1 - webster_Y ex_demands) = 88"
    unfolding y1 l1 by simp
  have ny: "\<not> webster_Y ex_demands < 5 / 100" unfolding y1 by simp
  from y0 ny f b c0 c1 show ?thesis by blast
qed

section \<open>The standard ring\<close>

lemma ex_ring_standard: "create_standard_4way default_timing = Inr ex_ring"
  by (simp add: create_standard_4way_def ped_clearance_s_def default_timing_def ex_ring_def)

lemma ex_ring_valid: "valid_ring ex_ring"
  by (simp add: valid_ring_def ex_ring_def non_conflicting_def CONFLICTING_PAIRS_def)

lemmas sm_defs = new_controller_def apply_signals_for_current_state_def current_phase_def
  py_index_def Let_def set_all_red_def apply_direction_def tick_def current_step_duration_def
  advance_step_def advance_to_next_phase_def next_phase_index_def enter_preemption_phase_def
  check_conflicts_def has_conflict_def CONFLICTING_PAIRS_def in_green_directions_def
  request_preemption_def clear_preemption_def enter_fault_mode_def

section \<open>Safety of the signal state machine\<close>

lemma py_index_in_set: "py_index xs i = Inr x \<Longrightarrow> x \<in> set xs"
  by (auto simp: py_index_def Let_def split: if_splits)

lemma py_index_in_range:
  "0 \<le> i \<Longrightarrow> i < int (length xs) \<Longrightarrow> py_index xs i = Inr (xs ! nat i)"
  by (simp add: py_index_def)

lemma not_green_set_all_red: "\<not> in_green_directions (set_all_red hs) d"
  by (simp add: in_green_directions_def set_all_red_def)

lemma green_apply_direction:
  "in_green_directions (apply_direction phase step hs x) d \<Longrightarrow> d = x \<or> in_green_directions hs d"
  by (auto simp: apply_direction_def in_green_directions_def Let_def split: if_splits)

lemma green_foldl_apply_direction:
  "in_green_directions (foldl (apply_direction phase step) hs ds) d
     \<Longrightarrow> d \<in> set ds \<or> in_green_directions hs d"
proof (induction ds arbitrary: hs)
  case Nil
  then show ?case by simp
next
  case (Cons x xs)
  from Cons.prems have "in_green_directions (foldl (apply_direction phase step) (apply_direction phase step hs x) xs) d"
    by simp
  from Cons.IH [OF this] show ?case
    by (auto dest: green_apply_direction)
qed

lemma no_conflict_within:
  assumes "non_conflicting ds" and "\<And>d. in_green_directions hs d \<Longrightarrow> d \<in> set ds"
  shows "\<not> has_conflict hs"
  using assms unfolding has_conflict_def non_conflicting_def CONFLICTING_PAIRS_def
  by auto

lemma no_conflict_single:
  assumes "\<And>d. in_green_directions hs d \<Longrightarrow> d = d0"
  shows "\<not> has_conflict hs"
  using assms unfolding has_conflict_def CONFLICTING_PAIRS_def
  by (cases d0) auto

lemma no_conflict_none:
  assumes "\<And>d. \<not> in_green_directions hs d"
  shows "\<not> has_conflict hs"
  using assms unfolding has_conflict_def CONFLICTING_PAIRS_def by auto

lemma current_phase_valid:
  "valid_ring (phase_ring s) \<Longrightarrow> current_phase s = Inr phase
     \<Longrightarrow> non_conflicting (served_directions phase)"
  unfolding current_phase_def valid_ring_def
  by (auto dest: py_index_in_set simp: list_all_iff)

lemma apply_signals_heads:
  assumes "apply_signals_for_current_state s = Inr s'"
  shows "\<exists>phase. current_phase s = Inr phase \<and>
           s' = s\<lparr>signal_heads :=
                    (if current_step s = PhaseStep.ALL_RED then set_all_red (signal_heads s)
                     else foldl (apply_direction phase (current_step s))
                                (set_all_red (signal_heads s)) (served_directions phase))\<rparr>"
  using assms unfolding apply_signals_for_current_state_def
  by (auto simp: Let_def split: sum.splits if_splits)

lemma apply_signals_no_conflict:
  assumes "valid_ring (phase_ring s)" and "apply_signals_for_current_state s = Inr s'"
  shows "\<not> has_conflict (signal_heads s')"
proof -
  from apply_signals_heads [OF assms(2)] obtain phase where
    ph: "current_phase s = Inr phase" and
    s': "s' = s\<lparr>signal_heads :=
                    (if current_step s = PhaseStep.ALL_RED then set_all_red (signal_heads s)
                     else foldl (apply_direction phase (current_step s))
                                (set_all_red (signal_heads s)) (served_directions phase))\<rparr>"
    by blast
  have nc: "non_conflicting (served_directions phase)"
    using current_phase_valid [OF assms(1) ph] .
  have "\<And>d. in_green_directions (signal_heads s') d \<Longrightarrow> d \<in> set (served_directions phase)"
    using s' by (auto simp: not_green_set_all_red dest: green_foldl_apply_direction split: if_splits)
  with nc show ?thesis by (rule no_conflict_within)
qed

lemma enter_fault_mode_no_conflict: "\<not> has_conflict (signal_heads (enter_fault_mode s))"
  by (rule no_conflict_none) (simp add: enter_fault_mode_def in_green_directions_def)

lemma check_conflicts_no_conflict: "\<not> has_conflict (signal_heads (check_conflicts s))"
  by (simp add: check_conflicts_def enter_fault_mode_no_conflict)

lemma enter_preemption_no_conflict:
  "\<not> has_conflict (signal_heads (enter_preemption_phase now s))"
proof (cases "preemption_direction s")
  case None
  then show ?thesis
    by (intro no_conflict_none) (simp add: enter_preemption_phase_def not_green_set_all_red)
next
  case (Some d0)
  have "\<And>d. in_green_directions (signal_heads (enter_preemption_phase now s)) d \<Longrightarrow> d = d0"
    using Some not_green_set_all_red [of "signal_heads s"]
    by (auto simp: enter_preemption_phase_def in_green_directions_def Let_def split: if_splits)
  then show ?thesis by (rule no_conflict_single)
qed

text \<open>Frame facts: which operations leave the ring and the index in range.\<close>

lemma idx_ok_current_phase: "idx_ok s \<Longrightarrow> \<exists>phase. current_phase s = Inr phase"
  by (simp add: idx_ok_def current_phase_def py_index_in_range)

lemma apply_signals_total:
  "idx_ok s \<Longrightarrow> \<exists>s'. apply_signals_for_current_state s = Inr s'"
  by (auto simp: apply_signals_for_current_state_def Let_def dest: idx_ok_current_phase)

lemma apply_signals_frame:
  assumes "apply_signals_for_current_state s = Inr s'"
  shows "phase_ring s' = phase_ring s" "current_phase_idx s' = current_phase_idx s"
    "current_step s' = current_step s" "is_preempted s' = is_preempted s"
    "preemption_direction s' = preemption_direction s" "step_start_time s' = step_start_time s"
    "cycle_count s' = cycle_count s"
  using apply_signals_heads [OF assms] by auto

lemma apply_signals_idx_ok:
  "apply_signals_for_current_state s = Inr s' \<Longrightarrow> idx_ok s \<Longrightarrow> idx_ok s'"
  by (simp add: idx_ok_def apply_signals_frame)

lemma advance_to_next_phase_ok:
  assumes "idx_ok s" and "valid_ring (phase_ring s)"
  shows "\<exists>s'. advance_to_next_phase now s = Inr s' \<and> idx_ok s' \<and>
           phase_ring s' = phase_ring s \<and> \<not> has_conflict (signal_heads s') \<and>
           current_step s' = PhaseStep.GREEN"
proof -
  let ?n = "int (length (phases (phase_ring s)))"
  let ?idx = "(current_phase_idx s + 1) mod ?n"
  let ?s1 = "s\<lparr>current_phase_idx := ?idx, current_step := PhaseStep.GREEN, step_start_time := now\<rparr>"
  from assms(1) have n: "0 < ?n" unfolding idx_ok_def by linarith
  then have nx: "next_phase_index (phase_ring s) (current_phase_idx s) = Inr ?idx"
    by (simp add: next_phase_index_def)
  from n have ok1: "idx_ok ?s1" by (simp add: idx_ok_def)
  from apply_signals_total [OF ok1] obtain s2 where s2: "apply_signals_for_current_state ?s1 = Inr s2"
    by blast
  have v1: "valid_ring (phase_ring ?s1)" using assms(2) by simp
  note fr = apply_signals_frame [OF s2]
  have "idx_ok s2" using apply_signals_idx_ok [OF s2 ok1] .
  moreover have "\<not> has_conflict (signal_heads s2)" using apply_signals_no_conflict [OF v1 s2] .
  moreover have "phase_ring s2 = phase_ring s" "current_step s2 = PhaseStep.GREEN" using fr by simp_all
  ultimately show ?thesis
    using n unfolding advance_to_next_phase_def Let_def nx
    by (simp add: s2 idx_ok_def)
qed

lemma continue_ok:
  assumes "idx_ok s" and "valid_ring (phase_ring s)"
  shows "\<exists>s'. apply_signals_for_current_state (s\<lparr>current_step := st, step_start_time := now\<rparr>) = Inr s' \<and>
           idx_ok s' \<and> phase_ring s' = phase_ring s \<and> \<not> has_conflict (signal_heads s') \<and>
           current_step s' = st"
proof -
  let ?s1 = "s\<lparr>current_step := st, step_start_time := now\<rparr>"
  from assms(1) have ok1: "idx_ok ?s1" by (simp add: idx_ok_def)
  from apply_signals_total [OF ok1] obtain s2 where s2: "apply_signals_for_current_state ?s1 = Inr s2"
    by blast
  have v1: "valid_ring (phase_ring ?s1)" using assms(2) by simp
  note fr = apply_signals_frame [OF s2]
  show ?thesis
    using apply_signals_idx_ok [OF s2 ok1] apply_signals_no_conflict [OF v1 s2] fr s2 by simp
qed

lemma enter_preemption_frame:
  "phase_ring (enter_preemption_phase now s) = phase_ring s"
  "current_phase_idx (enter_preemption_phase now s) = current_phase_idx s"
  "current_step (enter_preemption_phase now s) = PhaseStep.GREEN"
  by (simp_all add: enter_preemption_phase_def Let_def)

lemma advance_step_ok:
  assumes "idx_ok s" and "valid_ring (phase_ring s)"
  shows "\<exists>s'. advance_step now s = Inr s' \<and> idx_ok s' \<and>
           phase_ring s' = phase_ring s \<and> \<not> has_conflict (signal_heads s')"
proof -
  from idx_ok_current_phase [OF assms(1)] obtain phase where ph: "current_phase s = Inr phase"
    by blast
  show ?thesis
  proof (cases "current_step s")
    case GREEN
    with continue_ok [OF assms, where st = PhaseStep.YELLOW and now = now] show ?thesis
      by (auto simp: advance_step_def ph)
  next
    case FLASHING_YELLOW
    with continue_ok [OF assms, where st = PhaseStep.YELLOW and now = now] show ?thesis
      by (auto simp: advance_step_def ph)
  next
    case YELLOW
    with continue_ok [OF assms, where st = PhaseStep.ALL_RED and now = now] show ?thesis
      by (auto simp: advance_step_def ph)
  next
    case ALL_RED
    show ?thesis
    proof (cases "is_preempted s \<and> preemption_direction s \<noteq> None")
      case True
      with ALL_RED assms show ?thesis
        by (simp add: advance_step_def ph enter_preemption_no_conflict enter_preemption_frame idx_ok_def)
    next
      case False
      with ALL_RED advance_to_next_phase_ok [OF assms, of now] show ?thesis
        by (auto simp: advance_step_def ph)
    qed
  qed
qed

lemma check_conflicts_frame:
  "phase_ring (check_conflicts s) = phase_ring s"
  "current_phase_idx (check_conflicts s) = current_phase_idx s"
  "current_step (check_conflicts s) = current_step s"
  by (simp_all add: check_conflicts_def enter_fault_mode_def)

lemma tick_safe:
  assumes "safe_state s"
  shows "\<exists>s'. tick now s = Inr s' \<and> safe_state s' \<and> phase_ring s' = phase_ring s"
proof -
  from assms have ok: "idx_ok s" and v: "valid_ring (phase_ring s)" by (simp_all add: safe_state_def)
  from idx_ok_current_phase [OF ok] obtain phase where ph: "current_phase s = Inr phase" by blast
  then obtain dur where dur: "current_step_duration s = Inr dur"
    by (simp add: current_step_duration_def)
  from advance_step_ok [OF ok v, of now] obtain s1 where
    s1: "advance_step now s = Inr s1" "idx_ok s1" "phase_ring s1 = phase_ring s" by blast
  show ?thesis
    using s1 ok v
    by (auto simp: tick_def Let_def dur safe_state_def check_conflicts_frame idx_ok_def
          check_conflicts_no_conflict)
qed

lemma request_preemption_safe:
  assumes "safe_state s"
  shows "\<exists>s'. request_preemption d now s = Inr s' \<and> safe_state s' \<and> phase_ring s' = phase_ring s"
proof -
  from assms have ok: "idx_ok s" and v: "valid_ring (phase_ring s)"
    and nc: "\<not> has_conflict (signal_heads s)" by (simp_all add: safe_state_def)
  let ?s1 = "s\<lparr>is_preempted := True, preemption_direction := Some d\<rparr>"
  have ok1: "idx_ok ?s1" and v1: "valid_ring (phase_ring ?s1)" using ok v by (simp_all add: idx_ok_def)
  from continue_ok [OF ok1 v1, where st = PhaseStep.YELLOW and now = now] obtain s2 where
    s2: "apply_signals_for_current_state (?s1\<lparr>current_step := PhaseStep.YELLOW, step_start_time := now\<rparr>) = Inr s2"
      "idx_ok s2" "phase_ring s2 = phase_ring s" "\<not> has_conflict (signal_heads s2)" by auto
  show ?thesis
    using s2 assms ok1 v nc
    by (auto simp: request_preemption_def Let_def safe_state_def)
qed

lemma clear_preemption_safe:
  "safe_state s \<Longrightarrow> safe_state (clear_preemption s) \<and> phase_ring (clear_preemption s) = phase_ring s"
  by (simp add: safe_state_def clear_preemption_def idx_ok_def)

lemma step_event_safe:
  assumes "safe_state s"
  shows "\<exists>s'. step_event e s = Inr s' \<and> safe_state s' \<and> phase_ring s' = phase_ring s"
  using tick_safe [OF assms] request_preemption_safe [OF assms] clear_preemption_safe [OF assms]
  by (cases e) auto

lemma run_safe:
  "safe_state s \<Longrightarrow> \<exists>s'. run s evs = Inr s' \<and> safe_state s' \<and> phase_ring s' = phase_ring s"
proof (induction evs arbitrary: s)
  case Nil
  then show ?case by simp
next
  case (Cons e es)
  from step_event_safe [OF Cons.prems, of e] obtain s1 where
    s1: "step_event e s = Inr s1" "safe_state s1" "phase_ring s1 = phase_ring s" by blast
  from Cons.IH [OF s1(2)] s1 show ?case by auto
qed

lemma new_controller_safe:
  assumes "valid_ring ring"
  shows "\<exists>s0. new_controller ring c t0 = Inr s0 \<and> safe_state s0 \<and> phase_ring s0 = ring"
proof -
  let ?s = "\<lparr> phase_ring = ring, timing = c, current_phase_idx = 0,
         current_step = PhaseStep.GREEN, step_start_time = t0, cycle_count = 0,
         is_preempted = False, preemption_direction = None,
         signal_heads = (\<lambda>d. \<lparr> SignalHead.direction = d, vehicle_signal = SignalState.RED,
                                 left_turn_signal = SignalState.RED,
                                 pedestrian_signal = DONT_WALK \<rparr>) \<rparr>"
  from assms have ok: "idx_ok ?s" by (simp add: idx_ok_def valid_ring_def)
  have v: "valid_ring (phase_ring ?s)" using assms by simp
  from apply_signals_total [OF ok] obtain s0 where s0: "apply_signals_for_current_state ?s = Inr s0" by blast
  from apply_signals_idx_ok [OF s0 ok] apply_signals_no_conflict [OF v s0] apply_signals_frame(1) [OF s0] assms s0
  show ?thesis by (simp add: new_controller_def safe_state_def)
qed

text \<open>
  C1 (no conflicting greens). A controller built on a ring whose phases serve
  non-conflicting directions never raises, and after any sequence of ticks, preemption
  requests and clears, no pair of N-E, N-W, S-E, S-W has both directions in the green
  set (vehicle head green or yellow, or left-turn head showing the green arrow).
\<close>

theorem no_conflicting_greens:
  assumes "valid_ring ring"
  shows "\<exists>s0 s. new_controller ring c t0 = Inr s0 \<and> run s0 evs = Inr s \<and>
           (\<forall>(d1, d2) \<in> set CONFLICTING_PAIRS.
              \<not> (in_green_directions (signal_heads s) d1 \<and> in_green_directions (signal_heads s) d2))"
proof -
  from new_controller_safe [OF assms] obtain s0 where
    s0: "new_controller ring c t0 = Inr s0" "safe_state s0" by blast
  from run_safe [OF s0(2)] obtain s where s: "run s0 evs = Inr s" "safe_state s" by blast
  from s(2) have "\<not> has_conflict (signal_heads s)" by (simp add: safe_state_def)
  then have "\<forall>(d1, d2) \<in> set CONFLICTING_PAIRS.
              \<not> (in_green_directions (signal_heads s) d1 \<and> in_green_directions (signal_heads s) d2)"
    by (simp add: has_conflict_def list_ex_iff split_def)
  with s0 s show ?thesis by blast
qed

theorem no_conflicting_greens_witness:
  "valid_ring ex_ring \<and>
   (\<exists>s0 s. new_controller ex_ring default_timing 0 = Inr s0 \<and> run s0 ex_events = Inr s \<and>
      in_green_directions (signal_heads s) NORTH \<and>
      \<not> (in_green_directions (signal_heads s) NORTH \<and> in_green_directions (signal_heads s) EAST) \<and>
      \<not> (in_green_directions (signal_heads s) NORTH \<and> in_green_directions (signal_heads s) WEST) \<and>
      \<not> (in_green_directions (signal_heads s) SOUTH \<and> in_green_directions (signal_heads s) EAST) \<and>
      \<not> (in_green_directions (signal_heads s) SOUTH \<and> in_green_directions (signal_heads s) WEST))"
proof -
  from no_conflicting_greens [OF ex_ring_valid, of default_timing 0 ex_events]
  obtain s0 s where s: "new_controller ex_ring default_timing 0 = Inr s0" "run s0 ex_events = Inr s"
    and nc: "\<forall>(d1, d2) \<in> set CONFLICTING_PAIRS.
              \<not> (in_green_directions (signal_heads s) d1 \<and> in_green_directions (signal_heads s) d2)"
    by blast
  have "case new_controller ex_ring default_timing 0 of Inl e \<Rightarrow> False
        | Inr s0 \<Rightarrow> (case run s0 ex_events of Inl e \<Rightarrow> False
            | Inr s \<Rightarrow> in_green_directions (signal_heads s) NORTH)"
    by (simp add: ex_events_def ex_ring_def sm_defs)
  with s have "in_green_directions (signal_heads s) NORTH" by simp
  with s nc ex_ring_valid show ?thesis
    unfolding CONFLICTING_PAIRS_def by auto
qed

section \<open>Clearance between greens\<close>

lemma run_snoc:
  "run s (es @ [e]) = (case run s es of Inl err \<Rightarrow> Inl err | Inr s' \<Rightarrow> step_event e s')"
  by (induction es arbitrary: s) (auto split: sum.splits)

lemma trace_state_Suc:
  assumes "n < length evs"
  shows "trace_state ring c t0 evs (Suc n) =
           (case trace_state ring c t0 evs n of
              Inl err \<Rightarrow> Inl err | Inr s \<Rightarrow> step_event (evs ! n) s)"
  using assms by (simp add: trace_state_def take_Suc_conv_app_nth run_snoc split: sum.splits)

lemma trace_state_safe:
  assumes "valid_ring ring"
  shows "\<exists>s. trace_state ring c t0 evs n = Inr s \<and> safe_state s"
proof -
  from new_controller_safe [OF assms] obtain s0 where
    s0: "new_controller ring c t0 = Inr s0" "safe_state s0" by blast
  from run_safe [OF s0(2), of "take n evs"] s0(1) show ?thesis
    by (auto simp: trace_state_def)
qed

text \<open>Heads after recomputation: green only in the green sub-state.\<close>

lemma shows_green_set_all_red: "\<not> shows_green (set_all_red hs) d"
  by (simp add: shows_green_def set_all_red_def)

lemma shows_green_apply_direction:
  "step \<noteq> PhaseStep.GREEN \<Longrightarrow> shows_green (apply_direction phase step hs x) d
     \<Longrightarrow> shows_green hs d"
  by (auto simp: apply_direction_def shows_green_def Let_def split: if_splits)

lemma shows_green_foldl:
  "step \<noteq> PhaseStep.GREEN \<Longrightarrow> shows_green (foldl (apply_direction phase step) hs ds) d
     \<Longrightarrow> shows_green hs d"
proof (induction ds arbitrary: hs)
  case Nil
  then show ?case by simp
next
  case (Cons x xs)
  from Cons.prems(2)
  have "shows_green (foldl (apply_direction phase step) (apply_direction phase step hs x) xs) d"
    by simp
  from Cons.IH [OF Cons.prems(1) this] Cons.prems(1) show ?case
    by (rule shows_green_apply_direction [rotated])
qed

lemma apply_signals_green_only:
  assumes "apply_signals_for_current_state s = Inr s'"
  shows "green_only_in_green s'"
proof -
  from apply_signals_heads [OF assms] obtain phase where
    s': "s' = s\<lparr>signal_heads :=
                    (if current_step s = PhaseStep.ALL_RED then set_all_red (signal_heads s)
                     else foldl (apply_direction phase (current_step s))
                                (set_all_red (signal_heads s)) (served_directions phase))\<rparr>"
    by blast
  show ?thesis
    unfolding green_only_in_green_def
  proof (intro allI impI)
    fix d assume g: "shows_green (signal_heads s') d"
    show "current_step s' = PhaseStep.GREEN"
    proof (rule ccontr)
      assume ng: "current_step s' \<noteq> PhaseStep.GREEN"
      then have ng': "current_step s \<noteq> PhaseStep.GREEN" using s' by simp
      from g s' ng' have "shows_green (set_all_red (signal_heads s)) d"
        by (auto dest: shows_green_foldl split: if_splits)
      then show False by (simp add: shows_green_set_all_red)
    qed
  qed
qed

lemma enter_fault_mode_not_green: "\<not> shows_green (signal_heads (enter_fault_mode s)) d"
  by (simp add: enter_fault_mode_def shows_green_def)

lemma check_conflicts_green:
  "shows_green (signal_heads (check_conflicts s)) d \<Longrightarrow> shows_green (signal_heads s) d"
  by (auto simp: check_conflicts_def enter_fault_mode_not_green split: if_splits)

lemma check_conflicts_green_only:
  "green_only_in_green s \<Longrightarrow> green_only_in_green (check_conflicts s)"
  unfolding green_only_in_green_def
  by (auto simp: check_conflicts_frame dest: check_conflicts_green)

lemma advance_to_next_phase_step:
  assumes "advance_to_next_phase now s = Inr s'"
  shows "current_step s' = PhaseStep.GREEN \<and> green_only_in_green s'"
proof -
  from assms obtain idx s2 where
    s2: "apply_signals_for_current_state
           (s\<lparr>current_phase_idx := idx, current_step := PhaseStep.GREEN, step_start_time := now\<rparr>)
         = Inr s2"
    and s': "s' = s2 \<or> s' = s2\<lparr>cycle_count := cycle_count s2 + 1\<rparr>"
    by (auto simp: advance_to_next_phase_def Let_def split: sum.splits if_splits)
  from apply_signals_frame(3) [OF s2] have "current_step s2 = PhaseStep.GREEN" by simp
  moreover from apply_signals_green_only [OF s2] have "green_only_in_green s2" .
  ultimately show ?thesis using s' by (auto simp: green_only_in_green_def)
qed

lemma advance_step_step:
  assumes "advance_step now s = Inr s'"
  shows "current_step s' = next_step (current_step s) \<and> green_only_in_green s'"
proof -
  from assms obtain phase where ph: "current_phase s = Inr phase"
    by (auto simp: advance_step_def split: sum.splits)
  show ?thesis
  proof (cases "current_step s")
    case GREEN
    with assms ph have a: "apply_signals_for_current_state
        (s\<lparr>current_step := PhaseStep.YELLOW, step_start_time := now\<rparr>) = Inr s'"
      by (auto simp: advance_step_def split: if_splits)
    from apply_signals_frame(3) [OF a] apply_signals_green_only [OF a] GREEN
    show ?thesis by simp
  next
    case FLASHING_YELLOW
    with assms ph have a: "apply_signals_for_current_state
        (s\<lparr>current_step := PhaseStep.YELLOW, step_start_time := now\<rparr>) = Inr s'"
      by (auto simp: advance_step_def)
    from apply_signals_frame(3) [OF a] apply_signals_green_only [OF a] FLASHING_YELLOW
    show ?thesis by simp
  next
    case YELLOW
    with assms ph have a: "apply_signals_for_current_state
        (s\<lparr>current_step := PhaseStep.ALL_RED, step_start_time := now\<rparr>) = Inr s'"
      by (auto simp: advance_step_def)
    from apply_signals_frame(3) [OF a] apply_signals_green_only [OF a] YELLOW
    show ?thesis by simp
  next
    case ALL_RED
    show ?thesis
    proof (cases "is_preempted s \<and> preemption_direction s \<noteq> None")
      case True
      with ALL_RED assms ph have "s' = enter_preemption_phase now s"
        by (auto simp: advance_step_def)
      with ALL_RED show ?thesis
        by (simp add: enter_preemption_frame green_only_in_green_def)
    next
      case False
      with ALL_RED assms ph have "advance_to_next_phase now s = Inr s'"
        by (auto simp: advance_step_def)
      from advance_to_next_phase_step [OF this] ALL_RED show ?thesis by simp
    qed
  qed
qed

lemma tick_one_step:
  assumes "tick now s = Inr s'"
  shows "one_step s s'"
proof -
  from assms obtain s1 where s': "s' = check_conflicts s1"
    and s1: "s1 = s \<or> advance_step now s = Inr s1"
    by (auto simp: tick_def Let_def split: sum.splits if_splits)
  from s1 show ?thesis
  proof
    assume "s1 = s"
    with s' show ?thesis
      by (auto simp: one_step_def check_conflicts_frame check_conflicts_green_only
            dest: check_conflicts_green)
  next
    assume "advance_step now s = Inr s1"
    from advance_step_step [OF this] s' show ?thesis
      by (auto simp: one_step_def check_conflicts_frame check_conflicts_green_only)
  qed
qed

lemma request_preemption_one_step:
  assumes "request_preemption d now s = Inr s'"
  shows "one_step s s'"
proof (cases "is_preempted s")
  case True
  with assms show ?thesis by (simp add: request_preemption_def one_step_def)
next
  case False
  let ?s1 = "s\<lparr>is_preempted := True, preemption_direction := Some d\<rparr>"
  show ?thesis
  proof (cases "current_step s = PhaseStep.GREEN \<or> current_step s = PhaseStep.FLASHING_YELLOW")
    case True
    with False assms have a: "apply_signals_for_current_state
        (?s1\<lparr>current_step := PhaseStep.YELLOW, step_start_time := now\<rparr>) = Inr s'"
      by (simp add: request_preemption_def Let_def)
    from apply_signals_frame(3) [OF a] apply_signals_green_only [OF a] True
    show ?thesis by (auto simp: one_step_def)
  next
    case c: False
    with False assms have "s' = ?s1" by (simp add: request_preemption_def Let_def)
    then show ?thesis by (simp add: one_step_def green_only_in_green_def)
  qed
qed

lemma clear_preemption_one_step: "one_step s (clear_preemption s)"
  by (simp add: one_step_def clear_preemption_def green_only_in_green_def)

lemma step_event_one_step: "step_event e s = Inr s' \<Longrightarrow> one_step s s'"
  by (cases e) (auto simp: tick_one_step request_preemption_one_step clear_preemption_one_step)

lemma new_controller_green_only:
  "new_controller ring c t0 = Inr s0 \<Longrightarrow> green_only_in_green s0"
  unfolding new_controller_def by (rule apply_signals_green_only)

lemma first_change:
  fixes g :: "nat \<Rightarrow> PhaseStep"
  shows "i < j \<Longrightarrow> (\<And>n. i \<le> n \<Longrightarrow> n < j \<Longrightarrow> g (Suc n) = g n \<or> g (Suc n) = next_step (g n))
     \<Longrightarrow> g i = X \<Longrightarrow> g j \<noteq> X \<Longrightarrow> \<exists>a. i < a \<and> a \<le> j \<and> g a = next_step X"
proof (induction j)
  case 0
  then show ?case by simp
next
  case (Suc j)
  show ?case
  proof (cases "g j = X")
    case True
    from Suc.prems(1) have "i \<le> j" by simp
    from Suc.prems(2) [OF this] True Suc.prems(4) have "g (Suc j) = next_step X" by auto
    with Suc.prems(1) show ?thesis by blast
  next
    case False
    with Suc.prems(3) have "i \<noteq> j" by auto
    with Suc.prems(1) have ij: "i < j" by simp
    have "\<exists>a. i < a \<and> a \<le> j \<and> g a = next_step X"
    proof (rule Suc.IH [OF ij _ Suc.prems(3) False])
      fix n assume "i \<le> n" "n < j"
      then show "g (Suc n) = g n \<or> g (Suc n) = next_step (g n)"
        using Suc.prems(2) [of n] by simp
    qed
    then show ?thesis by (meson le_Suc_eq)
  qed
qed

lemma green_persists:
  fixes S :: "nat \<Rightarrow> SignalController"
  shows "k \<le> j \<Longrightarrow> (\<And>n. k \<le> n \<Longrightarrow> n < j \<Longrightarrow> one_step (S n) (S (Suc n)))
     \<Longrightarrow> (\<And>n. k \<le> n \<Longrightarrow> n \<le> j \<Longrightarrow> current_step (S n) = PhaseStep.GREEN)
     \<Longrightarrow> shows_green (signal_heads (S j)) d \<Longrightarrow> shows_green (signal_heads (S k)) d"
proof (induction j)
  case 0
  then show ?case by simp
next
  case (Suc j)
  show ?case
  proof (cases "k = Suc j")
    case True
    with Suc.prems(4) show ?thesis by simp
  next
    case False
    with Suc.prems(1) have kj: "k \<le> j" by simp
    have os: "one_step (S j) (S (Suc j))" using Suc.prems(2) [of j] kj by simp
    have "current_step (S j) = PhaseStep.GREEN" "current_step (S (Suc j)) = PhaseStep.GREEN"
      using Suc.prems(3) [of j] Suc.prems(3) [of "Suc j"] kj by simp_all
    with os Suc.prems(4) have g: "shows_green (signal_heads (S j)) d"
      by (simp add: one_step_def)
    show ?thesis
    proof (rule Suc.IH [OF kj _ _ g])
      fix n assume "k \<le> n" "n < j"
      then show "one_step (S n) (S (Suc n))" using Suc.prems(2) [of n] by simp
    next
      fix n assume "k \<le> n" "n \<le> j"
      then show "current_step (S n) = PhaseStep.GREEN" using Suc.prems(3) [of n] by simp
    qed
  qed
qed

text \<open>
  The sub-state of the controller as a whole does pass through the clearance. In a run of
  ticks, preemption requests and clears on a valid ring, let direction \<open>d\<close> show
  green after \<open>i\<close> calls and direction \<open>d'\<close> show green after \<open>j\<close> calls,
  not having shown green at some point \<open>k\<close> in between (\<open>i \<le> k < j\<close>). Then the
  sub-state yellow and, after it, the sub-state all-red are observed strictly between
  \<open>i\<close> and \<open>j\<close>. This is a fact about \<open>current_step\<close> only: it says nothing
  about what the heads of \<open>d\<close> display in between.
\<close>

lemma substate_clearance:
  assumes ring: "valid_ring ring"
    and ik: "i \<le> k" and kj: "k < j" and jn: "j \<le> length evs"
    and gi: "green_at ring c t0 evs i d"
    and gk: "\<not> green_at ring c t0 evs k d'"
    and gj: "green_at ring c t0 evs j d'"
  shows "\<exists>a b. i < a \<and> a < b \<and> b < j \<and>
           step_at ring c t0 evs a = Some PhaseStep.YELLOW \<and>
           step_at ring c t0 evs b = Some PhaseStep.ALL_RED"
proof -
  define S where "S n = projr (trace_state ring c t0 evs n)" for n
  have tr: "trace_state ring c t0 evs n = Inr (S n)" for n
    using trace_state_safe [OF ring, of c t0 evs n] by (auto simp: S_def)
  have os: "one_step (S n) (S (Suc n))" if "n < length evs" for n
  proof -
    from trace_state_Suc [OF that, of ring c t0] have "step_event (evs ! n) (S n) = Inr (S (Suc n))"
      by (simp add: tr)
    then show ?thesis by (rule step_event_one_step)
  qed
  have inv: "green_only_in_green (S n)" if "n \<le> length evs" for n
    using that
  proof (induction n)
    case 0
    from tr [of 0] have "new_controller ring c t0 = Inr (S 0)"
      by (simp add: trace_state_def split: sum.splits)
    then show ?case by (rule new_controller_green_only)
  next
    case (Suc n)
    then have "green_only_in_green (S n)" "one_step (S n) (S (Suc n))" using os by simp_all
    then show ?case by (simp add: one_step_def)
  qed
  let ?g = "\<lambda>n. current_step (S n)"
  have stp: "?g (Suc n) = ?g n \<or> ?g (Suc n) = next_step (?g n)" if "n < j" for n
    using os [of n] that jn by (simp add: one_step_def)
  from gi have "shows_green (signal_heads (S i)) d" by (simp add: green_at_def tr)
  moreover have "i \<le> length evs" using ik kj jn by simp
  ultimately have si: "?g i = PhaseStep.GREEN" using inv [of i] by (auto simp: green_only_in_green_def)
  from gj have gj': "shows_green (signal_heads (S j)) d'" by (simp add: green_at_def tr)
  with inv [OF jn] have sj: "?g j = PhaseStep.GREEN" by (auto simp: green_only_in_green_def)
  from gk have gk': "\<not> shows_green (signal_heads (S k)) d'" by (simp add: green_at_def tr)
  have "\<exists>m. k \<le> m \<and> m \<le> j \<and> ?g m \<noteq> PhaseStep.GREEN"
  proof (rule ccontr)
    assume "\<not> ?thesis"
    then have allg: "\<And>n. k \<le> n \<Longrightarrow> n \<le> j \<Longrightarrow> ?g n = PhaseStep.GREEN" by blast
    have "shows_green (signal_heads (S k)) d'"
    proof (rule green_persists [of k j S, OF _ _ allg gj'])
      show "k \<le> j" using kj by simp
    next
      fix n assume "k \<le> n" "n < j"
      then show "one_step (S n) (S (Suc n))" using os [of n] jn by simp
    qed
    with gk' show False ..
  qed
  then obtain m where m: "k \<le> m" "m \<le> j" "?g m \<noteq> PhaseStep.GREEN" by blast
  from m sj have mj: "m < j" by (cases "m = j") auto
  from m si ik have im: "i < m" by (cases "m = i") auto
  have "\<exists>a. i < a \<and> a \<le> m \<and> ?g a = next_step PhaseStep.GREEN"
  proof (rule first_change [where g = "?g" and i = i and j = m and X = PhaseStep.GREEN,
        OF im _ si m(3)])
    fix n assume "i \<le> n" "n < m"
    then show "?g (Suc n) = ?g n \<or> ?g (Suc n) = next_step (?g n)" using stp [of n] mj by simp
  qed
  then obtain a where a: "i < a" "a \<le> m" "?g a = PhaseStep.YELLOW" by auto
  have aj: "a < j" using a mj by simp
  have "\<exists>b. a < b \<and> b \<le> j \<and> ?g b = next_step PhaseStep.YELLOW"
  proof (rule first_change [where g = "?g" and i = a and j = j and X = PhaseStep.YELLOW,
        OF aj _ a(3)])
    fix n assume "a \<le> n" "n < j"
    then show "?g (Suc n) = ?g n \<or> ?g (Suc n) = next_step (?g n)" using stp [of n] by simp
  next
    show "?g j \<noteq> PhaseStep.YELLOW" using sj by simp
  qed
  then obtain b where b: "a < b" "b \<le> j" "?g b = PhaseStep.ALL_RED" by auto
  from b sj have bj: "b < j" by (cases "b = j") auto
  have "step_at ring c t0 evs a = Some PhaseStep.YELLOW" "step_at ring c t0 evs b = Some PhaseStep.ALL_RED"
    using a b by (simp_all add: step_at_def tr)
  with a(1) b(1) bj show ?thesis by blast
qed

lemma ev_take: "take 3 ex_events = [Tick 8, Tick 12, Tick (29 / 2)]"
  "take 4 ex_events = [Tick 8, Tick 12, Tick (29 / 2), RequestPreemption NORTH 15]"
  "take 5 ex_events = [Tick 8, Tick 12, Tick (29 / 2), RequestPreemption NORTH 15, Tick 19]"
  "take 6 ex_events = ex_events"
  by (simp_all add: ex_events_def)

lemma substate_clearance_example:
  "valid_ring ex_ring \<and> (3::nat) \<le> 4 \<and> (4::nat) < 6 \<and> 6 \<le> length ex_events \<and>
   green_at ex_ring default_timing 0 ex_events 3 NORTH \<and>
   \<not> green_at ex_ring default_timing 0 ex_events 4 NORTH \<and>
   green_at ex_ring default_timing 0 ex_events 6 NORTH \<and>
   step_at ex_ring default_timing 0 ex_events 4 = Some PhaseStep.YELLOW \<and>
   step_at ex_ring default_timing 0 ex_events 5 = Some PhaseStep.ALL_RED \<and>
   (\<exists>a b. 3 < a \<and> a < b \<and> b < 6 \<and>
      step_at ex_ring default_timing 0 ex_events a = Some PhaseStep.YELLOW \<and>
      step_at ex_ring default_timing 0 ex_events b = Some PhaseStep.ALL_RED)"
proof -
  have g3: "green_at ex_ring default_timing 0 ex_events 3 NORTH"
    unfolding green_at_def trace_state_def ev_take
    by (simp add: ex_ring_def shows_green_def sm_defs)
  have g4: "\<not> green_at ex_ring default_timing 0 ex_events 4 NORTH"
    unfolding green_at_def trace_state_def ev_take
    by (simp add: ex_ring_def shows_green_def sm_defs)
  have g6: "green_at ex_ring default_timing 0 ex_events 6 NORTH"
    unfolding green_at_def trace_state_def ev_take
    by (simp add: ex_ring_def ex_events_def shows_green_def sm_defs)
  have s4: "step_at ex_ring default_timing 0 ex_events 4 = Some PhaseStep.YELLOW"
    unfolding step_at_def trace_state_def ev_take
    by (simp add: ex_ring_def sm_defs)
  have s5: "step_at ex_ring default_timing 0 ex_events 5 = Some PhaseStep.ALL_RED"
    unfolding step_at_def trace_state_def ev_take
    by (simp add: ex_ring_def sm_defs)
  have l: "6 \<le> length ex_events" by (simp add: ex_events_def)
  from substate_clearance [OF ex_ring_valid _ _ l g3 g4 g6]
  have "\<exists>a b. 3 < a \<and> a < b \<and> b < 6 \<and>
      step_at ex_ring default_timing 0 ex_events a = Some PhaseStep.YELLOW \<and>
      step_at ex_ring default_timing 0 ex_events b = Some PhaseStep.ALL_RED" by simp
  with ex_ring_valid l g3 g4 g6 s4 s5 show ?thesis by simp
qed

section \<open>Preemption requests and fault mode\<close>

text \<open>
  C10. A preemption request that arrives while the controller is already preempted
  returns the controller unchanged: every field, the signal heads included, is as before,
  and the requested direction is stored nowhere.
\<close>

theorem request_preemption_when_preempted:
  "is_preempted s \<Longrightarrow> request_preemption d now s = Inr s"
  by (simp add: request_preemption_def)

theorem request_preemption_when_preempted_witness:
  "is_preempted ex_preempted \<and> preemption_direction ex_preempted = Some EAST \<and>
   request_preemption NORTH 30 ex_preempted = Inr ex_preempted"
proof -
  have p: "is_preempted ex_preempted" by (simp add: ex_preempted_def)
  have "preemption_direction ex_preempted = Some EAST" by (simp add: ex_preempted_def)
  with p request_preemption_when_preempted [OF p, of NORTH 30] show ?thesis by simp
qed

text \<open>
  C7. Fault mode on a freshly built standard controller sets every vehicle head to
  \<open>ALL_RED\<close> and leaves the phase index and the sub-state as they were; the ticks that
  follow are not held back: the next tick past the green time moves the sub-state to
  yellow and shows a yellow arrow, and two ticks later the phase index is 1 and the north
  vehicle head is green.
\<close>

theorem tick_after_fault_mode_advances:
  "case new_controller ex_ring default_timing 0 of
     Inl e \<Rightarrow> False
   | Inr s0 \<Rightarrow>
       current_step (enter_fault_mode s0) = PhaseStep.GREEN \<and>
       current_phase_idx (enter_fault_mode s0) = 0 \<and>
       vehicle_signal (signal_heads (enter_fault_mode s0) NORTH) = SignalState.ALL_RED \<and>
       vehicle_signal (signal_heads (enter_fault_mode s0) EAST) = SignalState.ALL_RED \<and>
       (case tick 8 (enter_fault_mode s0) of
          Inl e \<Rightarrow> False
        | Inr s1 \<Rightarrow> current_step s1 = PhaseStep.YELLOW \<and>
                    left_turn_signal (signal_heads s1 NORTH) = YELLOW_ARROW) \<and>
       (case run (enter_fault_mode s0) ex_fault_events of
          Inl e \<Rightarrow> False
        | Inr s3 \<Rightarrow> current_phase_idx s3 = 1 \<and> current_step s3 = PhaseStep.GREEN \<and>
                    vehicle_signal (signal_heads s3 NORTH) = SignalState.GREEN)"
  by (simp add: ex_fault_events_def ex_ring_def sm_defs)

section \<open>Leaving a preemption hold\<close>

lemma hold_vehicle_east:
  "vehicle_at ex_ring default_timing 0 ex_hold_events 3 EAST = Some SignalState.GREEN"
  "vehicle_at ex_ring default_timing 0 ex_hold_events 4 EAST = Some SignalState.GREEN"
  "vehicle_at ex_ring default_timing 0 ex_hold_events 5 EAST = Some SignalState.RED"
  "vehicle_at ex_ring default_timing 0 ex_hold_events 6 EAST = Some SignalState.RED"
  "vehicle_at ex_ring default_timing 0 ex_hold_events 7 EAST = Some SignalState.RED"
  "vehicle_at ex_ring default_timing 0 ex_hold_events 8 EAST = Some SignalState.RED"
  "vehicle_at ex_ring default_timing 0 ex_hold_events 9 EAST = Some SignalState.RED"
  "vehicle_at ex_ring default_timing 0 ex_hold_events 10 EAST = Some SignalState.RED"
  "vehicle_at ex_ring default_timing 0 ex_hold_events 11 EAST = Some SignalState.RED"
  "vehicle_at ex_ring default_timing 0 ex_hold_events 12 EAST = Some SignalState.RED"
  "vehicle_at ex_ring default_timing 0 ex_hold_events 13 EAST = Some SignalState.GREEN"
  by (simp_all add: vehicle_at_def trace_state_def ex_hold_events_def ex_ring_def sm_defs)

lemma hold_left_turn_east:
  "left_turn_at ex_ring default_timing 0 ex_hold_events 3 EAST = Some SignalState.RED"
  "left_turn_at ex_ring default_timing 0 ex_hold_events 4 EAST = Some SignalState.RED"
  "left_turn_at ex_ring default_timing 0 ex_hold_events 5 EAST = Some SignalState.RED"
  "left_turn_at ex_ring default_timing 0 ex_hold_events 6 EAST = Some SignalState.RED"
  "left_turn_at ex_ring default_timing 0 ex_hold_events 7 EAST = Some SignalState.RED"
  by (simp_all add: left_turn_at_def trace_state_def ex_hold_events_def ex_ring_def sm_defs)

lemma hold_steps:
  "step_at ex_ring default_timing 0 ex_hold_events 3 = Some PhaseStep.GREEN"
  "step_at ex_ring default_timing 0 ex_hold_events 4 = Some PhaseStep.GREEN"
  "step_at ex_ring default_timing 0 ex_hold_events 5 = Some PhaseStep.YELLOW"
  "step_at ex_ring default_timing 0 ex_hold_events 6 = Some PhaseStep.ALL_RED"
  "step_at ex_ring default_timing 0 ex_hold_events 7 = Some PhaseStep.GREEN"
  by (simp_all add: step_at_def trace_state_def ex_hold_events_def ex_ring_def sm_defs)

lemma hold_north:
  "vehicle_at ex_ring default_timing 0 ex_hold_events 4 NORTH = Some SignalState.RED"
  "vehicle_at ex_ring default_timing 0 ex_hold_events 5 NORTH = Some SignalState.RED"
  "left_turn_at ex_ring default_timing 0 ex_hold_events 5 NORTH = Some YELLOW_ARROW"
  "vehicle_at ex_ring default_timing 0 ex_hold_events 7 NORTH = Some SignalState.GREEN"
  by (simp_all add: vehicle_at_def left_turn_at_def trace_state_def ex_hold_events_def
        ex_ring_def sm_defs)

text \<open>
  C2. On the standard ring, east is preempted during the first green, held and cleared.
  After the third and the fourth call the east vehicle head is green (the preemption
  hold). The tick that ends the hold moves the sub-state to yellow, but the heads are
  recomputed for the phase that was running before the hold, which does not serve east:
  the east vehicle head is red from the fifth call on and its left-turn head stays red,
  while the north left-turn head, red during the hold, shows a yellow arrow. After the
  seventh call the north vehicle head is green. So the sub-states after the preemption
  green are yellow and all-red, yet the head of the preemption direction itself goes
  from green to red with no yellow before another direction receives green; and it shows
  no yellow either up to its next green, after the thirteenth call.
\<close>

theorem preemption_green_cut_without_yellow:
  "map (\<lambda>n. vehicle_at ex_ring default_timing 0 ex_hold_events n EAST) [3, 4, 5, 6, 7]
     = [Some SignalState.GREEN, Some SignalState.GREEN, Some SignalState.RED,
        Some SignalState.RED, Some SignalState.RED] \<and>
   map (\<lambda>n. left_turn_at ex_ring default_timing 0 ex_hold_events n EAST) [3, 4, 5, 6, 7]
     = [Some SignalState.RED, Some SignalState.RED, Some SignalState.RED,
        Some SignalState.RED, Some SignalState.RED] \<and>
   map (step_at ex_ring default_timing 0 ex_hold_events) [3, 4, 5, 6, 7]
     = [Some PhaseStep.GREEN, Some PhaseStep.GREEN, Some PhaseStep.YELLOW,
        Some PhaseStep.ALL_RED, Some PhaseStep.GREEN] \<and>
   vehicle_at ex_ring default_timing 0 ex_hold_events 4 NORTH = Some SignalState.RED \<and>
   left_turn_at ex_ring default_timing 0 ex_hold_events 5 NORTH = Some YELLOW_ARROW \<and>
   vehicle_at ex_ring default_timing 0 ex_hold_events 7 NORTH = Some SignalState.GREEN \<and>
   map (\<lambda>n. vehicle_at ex_ring default_timing 0 ex_hold_events n EAST) [8, 9, 10, 11, 12, 13]
     = [Some SignalState.RED, Some SignalState.RED, Some SignalState.RED,
        Some SignalState.RED, Some SignalState.RED, Some SignalState.GREEN]"
  by (simp add: hold_vehicle_east hold_left_turn_east hold_steps hold_north)

section \<open>The fault latch of the conflict monitor\<close>

lemma find_conflict_None:
  "find (\<lambda>(d1, d2). in_green_directions hs d1 \<and> in_green_directions hs d2) CONFLICTING_PAIRS = None
     \<longleftrightarrow> \<not> has_conflict hs"
  by (auto simp: has_conflict_def find_None_iff list_ex_iff)

lemma check_conflict:
  assumes "has_conflict (signal_heads sc)"
  shows "fst (check now m sc) = False"
    and "fault_active (fst (snd (check now m sc)))"
    and "consecutive_clean (fst (snd (check now m sc))) = 0"
    and "conflict_count (fst (snd (check now m sc))) = conflict_count m + 1"
    and "clean_checks_to_clear (fst (snd (check now m sc))) = clean_checks_to_clear m"
proof -
  from assms obtain d1 d2 where
    "find (\<lambda>(d1, d2). in_green_directions (signal_heads sc) d1 \<and>
           in_green_directions (signal_heads sc) d2) CONFLICTING_PAIRS = Some (d1, d2)"
    using find_conflict_None [of "signal_heads sc"] by (cases "find (\<lambda>(d1, d2). in_green_directions (signal_heads sc) d1 \<and>
           in_green_directions (signal_heads sc) d2) CONFLICTING_PAIRS") auto
  then show "fst (check now m sc) = False"
    and "fault_active (fst (snd (check now m sc)))"
    and "consecutive_clean (fst (snd (check now m sc))) = 0"
    and "conflict_count (fst (snd (check now m sc))) = conflict_count m + 1"
    and "clean_checks_to_clear (fst (snd (check now m sc))) = clean_checks_to_clear m"
    by (simp_all add: check_def on_conflict_detected_def Let_def)
qed

lemma check_clean:
  assumes "\<not> has_conflict (signal_heads sc)"
  shows "check now m sc =
           (True,
            (if fault_active m then
               (if clean_checks_to_clear m \<le> consecutive_clean m + 1
                then m\<lparr>last_check_time := now, consecutive_clean := 0, fault_active := False\<rparr>
                else m\<lparr>last_check_time := now, consecutive_clean := consecutive_clean m + 1\<rparr>)
             else m\<lparr>last_check_time := now\<rparr>),
            sc)"
  using assms find_conflict_None [of "signal_heads sc"]
  by (simp add: check_def Let_def)

lemma run_checks_append:
  "run_checks m (xs @ ys) = run_checks (run_checks m xs) ys"
  by (induction xs arbitrary: m) auto

lemma run_checks_threshold: "clean_checks_to_clear (run_checks m obs) = clean_checks_to_clear m"
proof (induction obs arbitrary: m)
  case Nil
  then show ?case by simp
next
  case (Cons x xs)
  obtain now sc where x: "x = (now, sc)" by (cases x)
  have "clean_checks_to_clear (fst (snd (check now m sc))) = clean_checks_to_clear m"
    by (cases "has_conflict (signal_heads sc)") (simp_all add: check_conflict check_clean)
  with Cons.IH x show ?case by simp
qed

lemma latched_below_threshold:
  "fault_active m \<Longrightarrow> clean obs
     \<Longrightarrow> consecutive_clean m + int (length obs) < clean_checks_to_clear m
     \<Longrightarrow> fault_active (run_checks m obs) \<and>
         consecutive_clean (run_checks m obs) = consecutive_clean m + int (length obs)"
proof (induction obs arbitrary: m)
  case Nil
  then show ?case by simp
next
  case (Cons x xs)
  obtain now sc where x: "x = (now, sc)" by (cases x)
  let ?m1 = "m\<lparr>last_check_time := now, consecutive_clean := consecutive_clean m + 1\<rparr>"
  from Cons.prems(2) x have c: "\<not> has_conflict (signal_heads sc)" and cs: "clean xs"
    by (simp_all add: clean_def)
  from Cons.prems(3) have "\<not> clean_checks_to_clear m \<le> consecutive_clean m + 1" by simp
  with Cons.prems(1) have m1: "fst (snd (check now m sc)) = ?m1"
    by (simp add: check_clean [OF c])
  have "fault_active ?m1" using Cons.prems(1) by simp
  moreover have "consecutive_clean ?m1 + int (length xs) < clean_checks_to_clear ?m1"
    using Cons.prems(3) by simp
  ultimately have "fault_active (run_checks ?m1 xs) \<and>
         consecutive_clean (run_checks ?m1 xs) = consecutive_clean ?m1 + int (length xs)"
    using Cons.IH [of ?m1] cs by blast
  with x m1 show ?case by simp
qed

lemma released_at_threshold:
  assumes "fault_active m" and "clean obs" and "obs \<noteq> []"
    and "consecutive_clean m + int (length obs) = clean_checks_to_clear m"
  shows "\<not> fault_active (run_checks m obs) \<and> consecutive_clean (run_checks m obs) = 0"
proof -
  from assms(3) obtain ys now sc where obs: "obs = ys @ [(now, sc)]"
    by (cases obs rule: rev_cases) auto
  from assms(2) obs have cy: "clean ys" and c: "\<not> has_conflict (signal_heads sc)"
    by (simp_all add: clean_def)
  let ?m = "run_checks m ys"
  from assms(4) obs have "consecutive_clean m + int (length ys) < clean_checks_to_clear m"
    by simp
  from latched_below_threshold [OF assms(1) cy this]
  have a: "fault_active ?m" and n: "consecutive_clean ?m = consecutive_clean m + int (length ys)"
    by simp_all
  from n assms(4) obs have "clean_checks_to_clear ?m \<le> consecutive_clean ?m + 1"
    by (simp add: run_checks_threshold)
  with a have "fst (snd (check now ?m sc)) =
      ?m\<lparr>last_check_time := now, consecutive_clean := 0, fault_active := False\<rparr>"
    by (simp add: check_clean [OF c])
  then show ?thesis by (simp add: obs run_checks_append)
qed

text \<open>
  C8 (fault latch). A check that finds a conflict leaves the latch set and the count of
  consecutive clean checks at 0, whatever the monitor was before, so a conflict inside the
  window starts the count again. After that, while fewer clean checks have followed than
  \<open>clean_checks_to_clear\<close>, the latch is still set and the count is the number of
  clean checks; the clean check that brings the count to \<open>clean_checks_to_clear\<close>
  clears the latch.
\<close>

theorem fault_latch:
  assumes "has_conflict (signal_heads sc)" and "clean obs"
  shows "fault_active (fst (snd (check now m sc))) \<and>
         consecutive_clean (fst (snd (check now m sc))) = 0 \<and>
         (int (length obs) < clean_checks_to_clear m \<longrightarrow>
            fault_active (run_checks (fst (snd (check now m sc))) obs) \<and>
            consecutive_clean (run_checks (fst (snd (check now m sc))) obs) = int (length obs)) \<and>
         (1 \<le> clean_checks_to_clear m \<and> int (length obs) = clean_checks_to_clear m \<longrightarrow>
            \<not> fault_active (run_checks (fst (snd (check now m sc))) obs))"
proof -
  let ?m1 = "fst (snd (check now m sc))"
  note cc = check_conflict [OF assms(1), of now m]
  have "fault_active (run_checks ?m1 obs) \<and> consecutive_clean (run_checks ?m1 obs) = int (length obs)"
    if "int (length obs) < clean_checks_to_clear m"
    using latched_below_threshold [OF cc(2) assms(2)] that cc(3,5) by simp
  moreover have "\<not> fault_active (run_checks ?m1 obs)"
    if "1 \<le> clean_checks_to_clear m" "int (length obs) = clean_checks_to_clear m"
  proof -
    from that have "obs \<noteq> []" by auto
    from released_at_threshold [OF cc(2) assms(2) this] that cc(3,5) show ?thesis by simp
  qed
  ultimately show ?thesis using cc(2,3) by blast
qed

theorem fault_latch_witness:
  "has_conflict (signal_heads ex_conflict) \<and>
   clean (replicate 49 (1, ex_preempted)) \<and> clean (replicate 50 (1, ex_preempted)) \<and>
   \<not> fault_active (new_monitor 50 0) \<and>
   fault_active ex_latched \<and> consecutive_clean ex_latched = 0 \<and>
   fault_active (run_checks ex_latched (replicate 49 (1, ex_preempted))) \<and>
   consecutive_clean (run_checks ex_latched (replicate 49 (1, ex_preempted))) = 49 \<and>
   \<not> fault_active (run_checks ex_latched (replicate 50 (1, ex_preempted)))"
proof -
  have h: "has_conflict (signal_heads ex_conflict)"
    by (simp add: ex_conflict_def has_conflict_def CONFLICTING_PAIRS_def in_green_directions_def)
  have nc: "\<not> has_conflict (signal_heads ex_preempted)"
    by (simp add: ex_preempted_def has_conflict_def CONFLICTING_PAIRS_def in_green_directions_def)
  have c: "clean (replicate n (1, ex_preempted))" for n
    using nc by (simp add: clean_def list_all_iff)
  have t: "clean_checks_to_clear (new_monitor 50 0) = 50" "\<not> fault_active (new_monitor 50 0)"
    by (simp_all add: new_monitor_def)
  from fault_latch [OF h c [of 49], of 0 "new_monitor 50 0"]
       fault_latch [OF h c [of 50], of 0 "new_monitor 50 0"] h c t
  show ?thesis by (simp add: ex_latched_def)
qed

section \<open>Contract of the preemption manager\<close>

lemma activate_result:
  assumes "activate now e (m, sc) = Inr (m', sc')"
  shows "m' = m\<lparr>active_event := Some (e\<lparr>activated_at := Some now\<rparr>)\<rparr>"
  using assms by (auto simp: activate_def Let_def split: sum.splits)

lemma activate_lifecycle:
  assumes "activate now e (m, sc) = Inr (m', sc')" and "lifecycle_ok m" and "cleared_at e = None"
  shows "lifecycle_ok m'"
  using assms(2,3) unfolding activate_result [OF assms(1)]
  by (simp add: lifecycle_ok_def is_active_def)

lemma request_lifecycle:
  assumes "request dir hold now (m, sc) = Inr (m', sc')" and "lifecycle_ok m"
  shows "lifecycle_ok m'"
proof (cases "active_event m")
  case None
  with assms(1) have "activate now \<lparr> direction = dir, requested_at = now, activated_at = None,
                     cleared_at = None, min_hold_s = hold \<rparr> (m, sc) = Inr (m', sc')"
    by (simp add: request_def)
  from activate_lifecycle [OF this assms(2)] show ?thesis by simp
next
  case (Some a)
  with assms show ?thesis by (auto simp: request_def lifecycle_ok_def)
qed

lemma clear_lifecycle:
  assumes "clear now (m, sc) = Inr (m', sc')" and "lifecycle_ok m"
  shows "lifecycle_ok m'"
proof (cases "active_event m")
  case None
  with assms show ?thesis by (simp add: clear_def)
next
  case (Some a)
  let ?m2 = "m\<lparr>history := history m @ [a\<lparr>cleared_at := Some now\<rparr>], active_event := None\<rparr>"
  have ok2: "lifecycle_ok ?m2" using assms(2) by (simp add: lifecycle_ok_def)
  show ?thesis
  proof (cases "pending m")
    case Nil
    with Some assms(1) ok2 show ?thesis by (simp add: clear_def Let_def)
  next
    case (Cons e rest)
    with Some assms(1) have act: "activate now e (?m2\<lparr>pending := rest\<rparr>, clear_preemption sc) = Inr (m', sc')"
      by (simp add: clear_def Let_def)
    have "lifecycle_ok (?m2\<lparr>pending := rest\<rparr>)" "cleared_at e = None"
      using assms(2) Cons by (simp_all add: lifecycle_ok_def)
    with activate_lifecycle [OF act] show ?thesis by simp
  qed
qed

lemma manager_tick_lifecycle:
  assumes "manager_tick now (m, sc) = Inr (m', sc')" and "lifecycle_ok m"
  shows "lifecycle_ok m'"
proof (cases "active_event m")
  case None
  show ?thesis
  proof (cases "pending m")
    case Nil
    with None assms show ?thesis by (simp add: manager_tick_def)
  next
    case (Cons e rest)
    with None assms(1) have act: "activate now e (m\<lparr>pending := rest\<rparr>, sc) = Inr (m', sc')"
      by (simp add: manager_tick_def)
    have "lifecycle_ok (m\<lparr>pending := rest\<rparr>)" "cleared_at e = None"
      using assms(2) Cons None by (simp_all add: lifecycle_ok_def)
    with activate_lifecycle [OF act] show ?thesis by simp
  qed
next
  case (Some a)
  with assms clear_lifecycle [of now m sc m' sc'] show ?thesis
    by (auto simp: manager_tick_def split: if_splits)
qed

lemma manager_step_lifecycle:
  "manager_step c (m, sc) = Inr (m', sc') \<Longrightarrow> lifecycle_ok m \<Longrightarrow> lifecycle_ok m'"
  by (cases c) (auto intro: request_lifecycle manager_tick_lifecycle clear_lifecycle)

lemma manager_run_lifecycle:
  "manager_run (m, sc) cs = Inr (m', sc') \<Longrightarrow> lifecycle_ok m \<Longrightarrow> lifecycle_ok m'"
proof (induction cs arbitrary: m sc)
  case Nil
  then show ?case by simp
next
  case (Cons c cs)
  from Cons.prems(1) obtain m1 sc1 where
    s1: "manager_step c (m, sc) = Inr (m1, sc1)" and r: "manager_run (m1, sc1) cs = Inr (m', sc')"
    by (auto split: sum.splits)
  from manager_step_lifecycle [OF s1 Cons.prems(2)] Cons.IH [OF r] show ?case by simp
qed

lemma lifecycle_one_active:
  assumes "lifecycle_ok m"
  shows "length (filter is_active (all_events m)) \<le> 1"
proof -
  from assms have "filter is_active (pending m) = []" "filter is_active (history m) = []"
    by (auto simp: lifecycle_ok_def list_all_iff is_active_def filter_empty_conv)
  then show ?thesis by (simp add: all_events_def split: option.splits)
qed

text \<open>
  C9 (preemption manager). In every state the manager reaches from its initial state by
  requests, ticks and clears: at most one of the events it holds (pending, active,
  archived) is active. If no event is active, \<open>request\<close> makes the new event the
  active one, with \<open>activated_at\<close> set, and requests preemption from the state
  machine. If an event is active, that event is active in the sense of \<open>is_active\<close>,
  \<open>request\<close> appends the new event at the end of the pending queue and changes
  nothing else, and \<open>clear\<close> archives the active event with \<open>cleared_at\<close> set,
  clears the state machine's preemption and then activates the event at the head of the
  pending queue, if there is one.
\<close>

theorem preemption_manager_contract:
  assumes "manager_run (new_manager mh, sc0) cs = Inr (m, sc)"
  shows "length (filter is_active (all_events m)) \<le> 1 \<and>
    (active_event m = None \<longrightarrow>
       request dir hold now (m, sc) =
         (case request_preemption dir now sc of
            Inl err \<Rightarrow> Inl err
          | Inr sc' \<Rightarrow>
              Inr (m\<lparr>active_event :=
                       Some \<lparr> direction = dir, requested_at = now, activated_at = Some now,
                              cleared_at = None, min_hold_s = hold \<rparr>\<rparr>, sc'))) \<and>
    (\<forall>a. active_event m = Some a \<longrightarrow>
       is_active a \<and>
       request dir hold now (m, sc) =
         Inr (m\<lparr>pending := pending m @
                    [\<lparr> direction = dir, requested_at = now, activated_at = None,
                       cleared_at = None, min_hold_s = hold \<rparr>]\<rparr>, sc) \<and>
       clear now (m, sc) =
         (case pending m of
            [] \<Rightarrow> Inr (m\<lparr>history := history m @ [a\<lparr>cleared_at := Some now\<rparr>],
                          active_event := None\<rparr>, clear_preemption sc)
          | e # rest \<Rightarrow>
              (case request_preemption (direction e) now (clear_preemption sc) of
                 Inl err \<Rightarrow> Inl err
               | Inr sc' \<Rightarrow>
                   Inr (m\<lparr>history := history m @ [a\<lparr>cleared_at := Some now\<rparr>],
                          pending := rest,
                          active_event := Some (e\<lparr>activated_at := Some now\<rparr>)\<rparr>, sc'))))"
proof -
  have "lifecycle_ok (new_manager mh)" by (simp add: lifecycle_ok_def new_manager_def)
  from manager_run_lifecycle [OF assms this] have ok: "lifecycle_ok m" .
  have one: "length (filter is_active (all_events m)) \<le> 1" using ok by (rule lifecycle_one_active)
  have req0: "active_event m = None \<longrightarrow>
       request dir hold now (m, sc) =
         (case request_preemption dir now sc of
            Inl err \<Rightarrow> Inl err
          | Inr sc' \<Rightarrow>
              Inr (m\<lparr>active_event :=
                       Some \<lparr> direction = dir, requested_at = now, activated_at = Some now,
                              cleared_at = None, min_hold_s = hold \<rparr>\<rparr>, sc'))"
    by (simp add: request_def activate_def Let_def)
  have rest: "is_active a \<and>
       request dir hold now (m, sc) =
         Inr (m\<lparr>pending := pending m @
                    [\<lparr> direction = dir, requested_at = now, activated_at = None,
                       cleared_at = None, min_hold_s = hold \<rparr>]\<rparr>, sc) \<and>
       clear now (m, sc) =
         (case pending m of
            [] \<Rightarrow> Inr (m\<lparr>history := history m @ [a\<lparr>cleared_at := Some now\<rparr>],
                          active_event := None\<rparr>, clear_preemption sc)
          | e # rest \<Rightarrow>
              (case request_preemption (direction e) now (clear_preemption sc) of
                 Inl err \<Rightarrow> Inl err
               | Inr sc' \<Rightarrow>
                   Inr (m\<lparr>history := history m @ [a\<lparr>cleared_at := Some now\<rparr>],
                          pending := rest,
                          active_event := Some (e\<lparr>activated_at := Some now\<rparr>)\<rparr>, sc')))"
    if a: "active_event m = Some a" for a
  proof (intro conjI)
    show "is_active a" using ok a by (simp add: lifecycle_ok_def)
    show "request dir hold now (m, sc) =
         Inr (m\<lparr>pending := pending m @
                    [\<lparr> direction = dir, requested_at = now, activated_at = None,
                       cleared_at = None, min_hold_s = hold \<rparr>]\<rparr>, sc)"
      using a by (simp add: request_def)
    show "clear now (m, sc) =
         (case pending m of
            [] \<Rightarrow> Inr (m\<lparr>history := history m @ [a\<lparr>cleared_at := Some now\<rparr>],
                          active_event := None\<rparr>, clear_preemption sc)
          | e # rest \<Rightarrow>
              (case request_preemption (direction e) now (clear_preemption sc) of
                 Inl err \<Rightarrow> Inl err
               | Inr sc' \<Rightarrow>
                   Inr (m\<lparr>history := history m @ [a\<lparr>cleared_at := Some now\<rparr>],
                          pending := rest,
                          active_event := Some (e\<lparr>activated_at := Some now\<rparr>)\<rparr>, sc')))"
      using a by (simp add: clear_def activate_def Let_def split: list.splits sum.splits)
  qed
  from one req0 rest show ?thesis by blast
qed

lemma ex_initial_new: "new_controller ex_ring default_timing 0 = Inr ex_initial"
  by (auto simp: ex_initial_def ex_ring_def sm_defs fun_eq_iff)

lemmas mgr_defs = request_def activate_def clear_def manager_tick_def new_manager_def
  hold_elapsed_s_def

theorem preemption_manager_contract_witness:
  "active_event (new_manager 30) = None \<and>
   (\<exists>m1 sc1. request NORTH 10 1 (new_manager 30, ex_initial) = Inr (m1, sc1) \<and>
      map direction (all_events m1) = [NORTH] \<and> preemption_direction sc1 = Some NORTH) \<and>
   (\<exists>m sc a. manager_run (new_manager 30, ex_initial) ex_calls = Inr (m, sc) \<and>
      active_event m = Some a \<and> direction a = NORTH \<and> is_active a \<and>
      map direction (pending m) = [EAST] \<and>
      length (filter is_active (all_events m)) \<le> 1 \<and>
      (\<exists>m' sc' a'. clear 3 (m, sc) = Inr (m', sc') \<and>
         active_event m' = Some a' \<and> direction a' = EAST \<and> activated_at a' = Some 3 \<and>
         pending m' = [] \<and> map direction (history m') = [NORTH] \<and>
         map cleared_at (history m') = [Some 3] \<and> preemption_direction sc' = Some EAST))"
proof -
  have n: "active_event (new_manager 30) = None" by (simp add: new_manager_def)
  have r0: "manager_run (new_manager 30, ex_initial) [] = Inr (new_manager 30, ex_initial)" by simp
  from preemption_manager_contract [OF r0, of NORTH 10 1] n
  have "request NORTH 10 1 (new_manager 30, ex_initial) =
         (case request_preemption NORTH 1 ex_initial of
            Inl err \<Rightarrow> Inl err
          | Inr sc' \<Rightarrow>
              Inr ((new_manager 30)\<lparr>active_event :=
                       Some \<lparr> direction = NORTH, requested_at = 1, activated_at = Some 1,
                              cleared_at = None, min_hold_s = 10 \<rparr>\<rparr>, sc'))" by simp
  moreover have "\<exists>sc1. request_preemption NORTH 1 ex_initial = Inr sc1 \<and> preemption_direction sc1 = Some NORTH"
    by (simp add: ex_initial_def ex_ring_def sm_defs)
  ultimately have first: "\<exists>m1 sc1. request NORTH 10 1 (new_manager 30, ex_initial) = Inr (m1, sc1) \<and>
      map direction (all_events m1) = [NORTH] \<and> preemption_direction sc1 = Some NORTH"
    by (auto simp: all_events_def new_manager_def)
  have "\<exists>m sc. manager_run (new_manager 30, ex_initial) ex_calls = Inr (m, sc) \<and>
      active_event m = Some \<lparr> direction = NORTH, requested_at = 1, activated_at = Some 1,
                              cleared_at = None, min_hold_s = 10 \<rparr> \<and>
      pending m = [\<lparr> direction = EAST, requested_at = 2, activated_at = None,
                              cleared_at = None, min_hold_s = 10 \<rparr>] \<and> history m = [] \<and>
      current_step sc = PhaseStep.YELLOW \<and> current_phase_idx sc = 0 \<and> phase_ring sc = ex_ring"
    by (simp add: ex_calls_def mgr_defs ex_initial_def ex_ring_def sm_defs)
  then obtain m sc where run: "manager_run (new_manager 30, ex_initial) ex_calls = Inr (m, sc)"
    and a: "active_event m = Some \<lparr> direction = NORTH, requested_at = 1, activated_at = Some 1,
                              cleared_at = None, min_hold_s = 10 \<rparr>"
    and p: "pending m = [\<lparr> direction = EAST, requested_at = 2, activated_at = None,
                              cleared_at = None, min_hold_s = 10 \<rparr>]"
    and h: "history m = []"
    and sc: "current_step sc = PhaseStep.YELLOW" "current_phase_idx sc = 0" "phase_ring sc = ex_ring"
    by blast
  note c = preemption_manager_contract [OF run, of EAST 10 3]
  from c have one: "length (filter is_active (all_events m)) \<le> 1" by blast
  from c a have act: "is_active \<lparr> direction = NORTH, requested_at = 1, activated_at = Some 1,
                              cleared_at = None, min_hold_s = 10 \<rparr>" by blast
  have "\<exists>sc'. request_preemption EAST 3 (clear_preemption sc) = Inr sc' \<and>
          preemption_direction sc' = Some EAST"
    using sc by (simp add: request_preemption_def clear_preemption_def)
  then obtain sc' where rp: "request_preemption EAST 3 (clear_preemption sc) = Inr sc'"
    and pd: "preemption_direction sc' = Some EAST" by blast
  from c a p have "clear 3 (m, sc) =
      Inr (m\<lparr>history := history m @
                 [\<lparr> direction = NORTH, requested_at = 1, activated_at = Some 1,
                    cleared_at = Some 3, min_hold_s = 10 \<rparr>],
             pending := [],
             active_event := Some \<lparr> direction = EAST, requested_at = 2, activated_at = Some 3,
                                    cleared_at = None, min_hold_s = 10 \<rparr>\<rparr>, sc')"
    by (simp add: rp)
  with h pd have "\<exists>m' sc' a'. clear 3 (m, sc) = Inr (m', sc') \<and>
         active_event m' = Some a' \<and> direction a' = EAST \<and> activated_at a' = Some 3 \<and>
         pending m' = [] \<and> map direction (history m') = [NORTH] \<and>
         map cleared_at (history m') = [Some 3] \<and> preemption_direction sc' = Some EAST"
    by auto
  with n first run a p one act show ?thesis by auto
qed

section \<open>Green splits and queue lengths\<close>

lemmas ad_defs = compute_cycle_plan_def phase_demand_def approach_def green_time_to_clear_def
  saturation_flow_per_sec_def py_index_def Let_def compute_cycle_length_def
  allocate_green_splits_def phase_weight_def apply_plan_def apply_to_phase_def
  enforce_cycle_def enforce_def ped_clearance_s_def extend_to_minimum_def reduce_to_maximum_def
  total_phase_time_s_def

lemmas ex_ad_defs = ex_engine_def ex_intersection_def ex_approach_def ex_lane_def ex_ring_def
  default_timing_def

text \<open>
  On the standard ring with through queues north 20, south 20, east 39, west 0, the
  north-south through phase has the greater total queue (40 against 39) and receives the
  smaller green (2604/65 s, about 40.1 s, against 60 s): the weight of a phase is the time
  to clear its longest lane queue, not its total queue.
\<close>

theorem heavier_queue_counterexample:
  "(case compute_cycle_plan ex_engine ex_ring of
      Inl e \<Rightarrow> False
    | Inr (plan, eng') \<Rightarrow>
        (case apply_plan eng' plan ex_ring of
           Inl e \<Rightarrow> False
         | Inr ring' \<Rightarrow>
             phase_type (phases ex_ring ! 1) = phase_type (phases ex_ring ! 3) \<and>
             is_left_turn (phases ex_ring ! 1) = is_left_turn (phases ex_ring ! 3) \<and>
             map total_queue (phase_demands plan) = [0, 40, 0, 39] \<and>
             map green_time_s (phases ring') = [8, 2604 / 65, 8, 60] \<and>
             green_time_s (phases ring' ! 1) < green_time_s (phases ring' ! 3)))"
  by (simp add: ad_defs ex_ad_defs)

subsection \<open>Enforcement keeps the order of two greens\<close>

lemma enforce_green:
  assumes "enforce c p = Inr q"
  shows "green_time_s q =
           (if is_left_turn p
            then max (min_protected_left_green_s c) (min (max_protected_left_green_s c) (green_time_s p))
            else max (max (min_green_s c) (min (max_green_s c) (green_time_s p)))
                     (max (min_walk_s c) (walk_time_s p)
                      + default_crosswalk_distance_ft c / ped_clearance_speed_ft_per_s c))"
    and "walk_time_s q = (if is_left_turn p then walk_time_s p else max (min_walk_s c) (walk_time_s p))"
    and "yellow_time_s q = yellow_clearance_s c" and "all_red_time_s q = all_red_clearance_s c"
    and "is_left_turn q = is_left_turn p" and "phase_id q = phase_id p"
proof -
  have "is_left_turn p \<or> (\<not> is_left_turn p \<and> ped_clearance_speed_ft_per_s c \<noteq> 0)"
    using assms by (auto simp: enforce_through_raises)
  then have q: "q = (if is_left_turn p then
            p\<lparr>green_time_s := max (min_protected_left_green_s c)
                                (min (max_protected_left_green_s c) (green_time_s p)),
               yellow_time_s := yellow_clearance_s c,
               all_red_time_s := all_red_clearance_s c\<rparr>
           else p\<lparr>green_time_s :=
                     max (max (min_green_s c) (min (max_green_s c) (green_time_s p)))
                         (max (min_walk_s c) (walk_time_s p)
                          + default_crosswalk_distance_ft c / ped_clearance_speed_ft_per_s c),
                   yellow_time_s := yellow_clearance_s c,
                   all_red_time_s := all_red_clearance_s c,
                   walk_time_s := max (min_walk_s c) (walk_time_s p),
                   ped_clearance_time_s :=
                     default_crosswalk_distance_ft c / ped_clearance_speed_ft_per_s c\<rparr>)"
    using assms by (auto simp: enforce_left_turn enforce_through)
  show "green_time_s q =
           (if is_left_turn p
            then max (min_protected_left_green_s c) (min (max_protected_left_green_s c) (green_time_s p))
            else max (max (min_green_s c) (min (max_green_s c) (green_time_s p)))
                     (max (min_walk_s c) (walk_time_s p)
                      + default_crosswalk_distance_ft c / ped_clearance_speed_ft_per_s c))"
    and "walk_time_s q = (if is_left_turn p then walk_time_s p else max (min_walk_s c) (walk_time_s p))"
    and "yellow_time_s q = yellow_clearance_s c" and "all_red_time_s q = all_red_clearance_s c"
    and "is_left_turn q = is_left_turn p" and "phase_id q = phase_id p"
    by (simp_all add: q)
qed

lemma enforce_mono:
  assumes "enforce c a = Inr a'" and "enforce c b = Inr b'" and "no_less a b"
  shows "no_less a' b'"
  using assms(3)
  unfolding no_less_def enforce_green [OF assms(1)] enforce_green [OF assms(2)]
  by (auto simp: max_def min_def)

lemma enforce_all_nth:
  "enforce_all c xs = Inr ys \<Longrightarrow>
     length ys = length xs \<and> (\<forall>k < length xs. enforce c (xs ! k) = Inr (ys ! k))"
proof (induction xs arbitrary: ys)
  case Nil
  then show ?case by simp
next
  case (Cons x xs)
  from Cons.prems obtain q qs where q: "enforce c x = Inr q" and qs: "enforce_all c xs = Inr qs"
    and ys: "ys = q # qs" by (auto split: sum.splits)
  from Cons.IH [OF qs] q ys show ?case by (auto simp: nth_Cons split: nat.splits)
qed

lemma enforce_all_mono:
  assumes "enforce_all c xs = Inr ys" and "i < length xs" and "j < length xs"
    and "no_less (xs ! i) (xs ! j)"
  shows "no_less (ys ! i) (ys ! j)"
  using enforce_all_nth [OF assms(1)] assms(2-4) by (auto intro: enforce_mono)

lemma scale_no_less:
  "0 \<le> r \<Longrightarrow> no_less a b \<Longrightarrow>
     no_less (a\<lparr>green_time_s := green_time_s a * r\<rparr>) (b\<lparr>green_time_s := green_time_s b * r\<rparr>)"
  by (simp add: no_less_def mult_right_mono)

lemma enforce_all_fixed:
  assumes "enforce_all c xs = Inr ys"
  shows "sum_list (map (\<lambda>p. yellow_time_s p + all_red_time_s p) ys)
           = real (length xs) * (yellow_clearance_s c + all_red_clearance_s c)"
  using assms
proof (induction xs arbitrary: ys)
  case Nil
  then show ?case by simp
next
  case (Cons x xs)
  from Cons.prems obtain q qs where q: "enforce c x = Inr q" and qs: "enforce_all c xs = Inr qs"
    and ys: "ys = q # qs" by (auto split: sum.splits)
  from Cons.IH [OF qs] enforce_green(3,4) [OF q] ys show ?case by (simp add: algebra_simps)
qed

lemma enforce_cycle_mono:
  assumes ec: "enforce_cycle c xs = Inr ys" and i: "i < length xs" and j: "j < length xs"
    and nl: "no_less (xs ! i) (xs ! j)"
    and fits: "real (length xs) * (yellow_clearance_s c + all_red_clearance_s c) \<le> max_cycle_s c"
  shows "length ys = length xs \<and> no_less (ys ! i) (ys ! j)"
proof -
  from ec obtain qs where qs: "enforce_all c xs = Inr qs"
    by (auto simp: enforce_cycle_def split: sum.splits)
  note n1 = enforce_all_nth [OF qs]
  have l1: "length qs = length xs" using n1 by simp
  have m1: "no_less (qs ! i) (qs ! j)" using enforce_all_mono [OF qs i j nl] .
  let ?total = "sum_list (map total_phase_time_s qs)"
  let ?fixed = "sum_list (map (\<lambda>p. yellow_time_s p + all_red_time_s p) qs)"
  have fixed: "?fixed = real (length xs) * (yellow_clearance_s c + all_red_clearance_s c)"
    using enforce_all_fixed [OF qs] .
  have scaled: "length ys = length xs \<and> no_less (ys ! i) (ys ! j)"
    if r: "0 \<le> r"
      and e: "enforce_all c (map (\<lambda>p. p\<lparr>green_time_s := green_time_s p * r\<rparr>) qs) = Inr ys"
    for r
  proof -
    let ?zs = "map (\<lambda>p. p\<lparr>green_time_s := green_time_s p * r\<rparr>) qs"
    have "no_less (?zs ! i) (?zs ! j)" using i j l1 m1 r by (simp add: scale_no_less)
    moreover have "i < length ?zs" "j < length ?zs" using i j l1 by simp_all
    ultimately have "no_less (ys ! i) (ys ! j)" using enforce_all_mono [OF e] by blast
    moreover have "length ys = length xs" using enforce_all_nth [OF e] l1 by simp
    ultimately show ?thesis by simp
  qed
  consider (ext) "?total < min_cycle_s c"
    | (red) "\<not> ?total < min_cycle_s c" "?total > max_cycle_s c"
    | (keep) "\<not> ?total < min_cycle_s c" "\<not> ?total > max_cycle_s c" by blast
  then show ?thesis
  proof cases
    case ext
    with ec qs have e: "extend_to_minimum c qs ?total = Inr ys"
      by (simp add: enforce_cycle_def Let_def)
    show ?thesis
    proof (cases "?total - ?fixed \<le> 0")
      case True
      with e have "ys = qs" by (simp add: extend_to_minimum_def Let_def)
      with l1 m1 show ?thesis by simp
    next
      case False
      with e have e': "enforce_all c (map (\<lambda>p. p\<lparr>green_time_s := green_time_s p *
            ((min_cycle_s c - ?fixed) / (?total - ?fixed))\<rparr>) qs) = Inr ys"
        by (simp add: extend_to_minimum_def Let_def)
      from False ext have "0 \<le> (min_cycle_s c - ?fixed) / (?total - ?fixed)" by simp
      from scaled [OF this e'] show ?thesis .
    qed
  next
    case red
    with ec qs have e: "reduce_to_maximum c qs ?total = Inr ys"
      by (simp add: enforce_cycle_def Let_def)
    show ?thesis
    proof (cases "?total - ?fixed \<le> 0")
      case True
      with e have "ys = qs" by (simp add: reduce_to_maximum_def Let_def)
      with l1 m1 show ?thesis by simp
    next
      case False
      with e have e': "enforce_all c (map (\<lambda>p. p\<lparr>green_time_s := green_time_s p *
            ((max_cycle_s c - ?fixed) / (?total - ?fixed))\<rparr>) qs) = Inr ys"
        by (simp add: reduce_to_maximum_def Let_def)
      from False fits fixed have "0 \<le> (max_cycle_s c - ?fixed) / (?total - ?fixed)" by simp
      from scaled [OF this e'] show ?thesis .
    qed
  next
    case keep
    with ec qs have "ys = qs" by (simp add: enforce_cycle_def Let_def)
    with l1 m1 show ?thesis by simp
  qed
qed

subsection \<open>What the plan holds\<close>

lemma demand_loop_left:
  "is_left_turn phase \<Longrightarrow> demand_loop isec c phase dirs (tq0, m0, l0) = Inr (tq, m, l)
     \<Longrightarrow> l - l0 = tq - tq0"
proof (induction dirs arbitrary: tq0 m0 l0)
  case Nil
  then show ?case by simp
next
  case (Cons d dirs)
  from Cons.prems(2) obtain a :: Approach and ideal where
    r: "demand_loop isec c phase dirs
          (tq0 + queue_count (left_turn_lane a), max m0 ideal, l0 + queue_count (left_turn_lane a))
        = Inr (tq, m, l)"
    using Cons.prems(1) by (auto simp: Let_def split: sum.splits)
  from Cons.IH [OF Cons.prems(1) r] show ?case by simp
qed

lemma demand_loop_through:
  "\<not> is_left_turn phase \<Longrightarrow> demand_loop isec c phase dirs (tq0, m0, l0) = Inr (tq, m, l)
     \<Longrightarrow> l = l0"
proof (induction dirs arbitrary: tq0 m0 l0)
  case Nil
  then show ?case by simp
next
  case (Cons d dirs)
  from Cons.prems(2) obtain a :: Approach and ideal where
    r: "demand_loop isec c phase dirs
          (tq0 + queue_count (through_lane a), max m0 ideal, l0) = Inr (tq, m, l)"
    using Cons.prems(1) by (auto simp: Let_def split: sum.splits)
  from Cons.IH [OF Cons.prems(1) r] show ?case .
qed

lemma phase_demand_facts:
  assumes "phase_demand eng p = Inr (d, eng1)"
  shows "demand_phase_id d = phase_id p" and "timing eng1 = timing eng"
    and "intersection eng1 = intersection eng" and "smoothing_alpha eng1 = smoothing_alpha eng"
    and "needs_protected_left d \<longleftrightarrow>
           is_left_turn p \<and> left_turn_queue_threshold (timing eng) \<le> total_queue d"
proof -
  from assms obtain tq mig ltt where
    dl: "demand_loop (intersection eng) (timing eng) p (served_directions p) (0, 0, 0)
           = Inr (tq, mig, ltt)"
    by (auto simp: phase_demand_def split: sum.splits)
  from assms dl have d: "demand_phase_id d = phase_id p" "total_queue d = tq"
    "needs_protected_left d \<longleftrightarrow> is_left_turn p \<and> left_turn_queue_threshold (timing eng) \<le> ltt"
    and e: "timing eng1 = timing eng" "intersection eng1 = intersection eng"
      "smoothing_alpha eng1 = smoothing_alpha eng"
    by (auto simp: phase_demand_def Let_def split: sum.splits option.splits)
  have "is_left_turn p \<Longrightarrow> ltt = tq" using demand_loop_left [OF _ dl] by simp
  with d e show "demand_phase_id d = phase_id p" and "timing eng1 = timing eng"
    and "intersection eng1 = intersection eng" and "smoothing_alpha eng1 = smoothing_alpha eng"
    and "needs_protected_left d \<longleftrightarrow>
           is_left_turn p \<and> left_turn_queue_threshold (timing eng) \<le> total_queue d"
    by auto
qed

lemma compute_demands_facts:
  "compute_demands eng ps = Inr (ds, eng') \<Longrightarrow>
     length ds = length ps \<and> timing eng' = timing eng \<and>
     (\<forall>k < length ps. demand_phase_id (ds ! k) = phase_id (ps ! k) \<and>
        (needs_protected_left (ds ! k) \<longleftrightarrow>
           is_left_turn (ps ! k) \<and> left_turn_queue_threshold (timing eng) \<le> total_queue (ds ! k)))"
proof (induction ps arbitrary: eng ds)
  case Nil
  then show ?case by simp
next
  case (Cons p ps)
  from Cons.prems obtain d eng1 ds1 where d: "phase_demand eng p = Inr (d, eng1)"
    and r: "compute_demands eng1 ps = Inr (ds1, eng')" and ds: "ds = d # ds1"
    by (auto split: sum.splits)
  note f = phase_demand_facts [OF d]
  from Cons.IH [OF r] f ds show ?case
    by (auto simp: nth_Cons split: nat.splits)
qed

lemma dict_set_fresh: "k \<notin> fst ` set kvs \<Longrightarrow> dict_set kvs k v = kvs @ [(k, v)]"
  by (induction kvs) auto

lemma weights_loop_distinct:
  "weights_loop c ring ds acc = Inr ws \<Longrightarrow> distinct (map fst acc @ map demand_phase_id ds)
     \<Longrightarrow> ws = acc @ map (\<lambda>d. (demand_phase_id d, projr (phase_weight c ring d))) ds \<and>
         (\<forall>d \<in> set ds. phase_weight c ring d = Inr (projr (phase_weight c ring d)))"
proof (induction ds arbitrary: acc)
  case Nil
  then show ?case by simp
next
  case (Cons d ds)
  from Cons.prems(1) obtain w where w: "phase_weight c ring d = Inr w"
    and r: "weights_loop c ring ds (dict_set acc (demand_phase_id d) w) = Inr ws"
    by (auto split: sum.splits)
  from Cons.prems(2) have fresh: "demand_phase_id d \<notin> fst ` set acc" by auto
  have acc': "dict_set acc (demand_phase_id d) w = acc @ [(demand_phase_id d, w)]"
    using dict_set_fresh [OF fresh] .
  have "distinct (map fst (acc @ [(demand_phase_id d, w)]) @ map demand_phase_id ds)"
    using Cons.prems(2) by auto
  from Cons.IH [OF r [unfolded acc'] this] w show ?case by simp
qed

lemma find_distinct:
  "distinct (map f xs) \<Longrightarrow> k < length xs \<Longrightarrow> find (\<lambda>x. f x = f (xs ! k)) xs = Some (xs ! k)"
proof (induction xs arbitrary: k)
  case Nil
  then show ?case by simp
next
  case (Cons x xs)
  show ?case
  proof (cases k)
    case 0
    then show ?thesis by simp
  next
    case (Suc k')
    with Cons.prems have k': "k' < length xs" by simp
    then have "xs ! k' \<in> set xs" by (rule nth_mem)
    with Cons.prems(1) have "f x \<noteq> f (xs ! k')" by force
    with Cons.IH [OF _ k'] Cons.prems(1) Suc show ?thesis by simp
  qed
qed

lemma plan_green:
  assumes plan: "compute_cycle_plan eng ring = Inr (plan, eng')"
    and dist: "distinct (map phase_id (phases ring))"
  shows "timing eng' = timing eng \<and> length (phase_demands plan) = length (phases ring) \<and>
    (\<exists>W A. 0 < W \<and> 0 \<le> A \<and>
       (\<forall>k < length (phases ring).
          demand_phase_id (phase_demands plan ! k) = phase_id (phases ring ! k) \<and>
          (needs_protected_left (phase_demands plan ! k) \<longleftrightarrow>
             is_left_turn (phases ring ! k) \<and>
             left_turn_queue_threshold (timing eng) \<le> total_queue (phase_demands plan ! k)) \<and>
          map_of (phase_greens plan) (phase_id (phases ring ! k)) =
            Some (weight_of (timing eng) (phases ring ! k) (phase_demands plan ! k) / W * A)))"
proof -
  let ?ps = "phases ring" and ?c = "timing eng"
  from plan obtain ds greens where cd: "compute_demands eng ?ps = Inr (ds, eng')"
    and al: "allocate_green_splits (timing eng') ds (compute_cycle_length (timing eng') ds) ring
               = Inr greens"
    and pl: "phase_demands plan = ds" "phase_greens plan = greens"
    by (auto simp: compute_cycle_plan_def Let_def split: sum.splits)
  note cf = compute_demands_facts [OF cd]
  have te: "timing eng' = ?c" and len: "length ds = length ?ps" using cf by simp_all
  have ids: "map demand_phase_id ds = map phase_id ?ps"
    using cf by (auto simp: list_eq_iff_nth_eq)
  from al te obtain ws where wl: "weights_loop ?c ring ds [] = Inr ws"
    by (auto simp: allocate_green_splits_def Let_def split: sum.splits)
  define W where "W = (if sum_list (map snd ws) \<le> 0 then 1 else sum_list (map snd ws))"
  define A where "A = max 0 (compute_cycle_length ?c ds
      - sum_list (map (\<lambda>p. yellow_time_s p + all_red_time_s p) ?ps))"
  have W: "0 < W" and A: "0 \<le> A" by (simp_all add: W_def A_def)
  from al te wl have gr: "greens = map (\<lambda>(pid, weight). (pid, (weight / W) * A)) ws"
    by (simp add: allocate_green_splits_def Let_def W_def A_def)
  have "distinct (map fst [] @ map demand_phase_id ds)" using dist ids by simp
  from weights_loop_distinct [OF wl this]
  have ws: "ws = map (\<lambda>d. (demand_phase_id d, projr (phase_weight ?c ring d))) ds"
    and pw: "\<And>d. d \<in> set ds \<Longrightarrow> phase_weight ?c ring d = Inr (projr (phase_weight ?c ring d))"
    by simp_all
  have main: "map_of greens (phase_id (?ps ! k)) = Some (weight_of ?c (?ps ! k) (ds ! k) / W * A)"
    if k: "k < length ?ps" for k
  proof -
    have idk: "demand_phase_id (ds ! k) = phase_id (?ps ! k)" using cf k by simp
    have "find (\<lambda>p. phase_id p = demand_phase_id (ds ! k)) ?ps = Some (?ps ! k)"
      using find_distinct [OF dist k] idk by simp
    then have "phase_weight ?c ring (ds ! k) = Inr (weight_of ?c (?ps ! k) (ds ! k))"
      by (simp add: phase_weight_def weight_of_def Let_def)
    then have pk: "projr (phase_weight ?c ring (ds ! k)) = weight_of ?c (?ps ! k) (ds ! k)" by simp
    have dg: "distinct (map fst greens)"
      using dist ids by (simp add: gr ws comp_def split_def)
    have "(phase_id (?ps ! k), weight_of ?c (?ps ! k) (ds ! k) / W * A) \<in> set greens"
    proof -
      have "ds ! k \<in> set ds" using k len by simp
      then have "(demand_phase_id (ds ! k), projr (phase_weight ?c ring (ds ! k)) / W * A) \<in> set greens"
        by (auto simp: gr ws image_iff)
      then show ?thesis by (simp add: idk pk)
    qed
    with dg show ?thesis by (rule map_of_is_SomeI)
  qed
  from te len cf main W A pl show ?thesis by auto
qed

subsection \<open>The phase with the longer queues\<close>

lemma weight_of_mono:
  assumes "is_left_turn p1 = is_left_turn p2"
    and "needs_protected_left d1 \<longleftrightarrow> is_left_turn p1 \<and> thr \<le> total_queue d1"
    and "needs_protected_left d2 \<longleftrightarrow> is_left_turn p2 \<and> thr \<le> total_queue d2"
    and "total_queue d2 < total_queue d1" and "0 \<le> total_queue d2"
    and "ideal_green_s d2 \<le> ideal_green_s d1"
    and "min_protected_left_green_s c / 2 \<le> min_green_s c"
  shows "weight_of c p2 d2 \<le> weight_of c p1 d1"
  using assms by (auto simp: weight_of_def max_def)

lemma apply_to_phase_fields:
  "is_left_turn (apply_to_phase plan p) = is_left_turn p"
  "walk_time_s (apply_to_phase plan p) = walk_time_s p"
  "green_time_s (apply_to_phase plan p) =
     (case map_of (phase_greens plan) (phase_id p) of Some g \<Rightarrow> g | None \<Rightarrow> green_time_s p)"
  by (simp_all add: apply_to_phase_def Let_def split: option.splits)

text \<open>
  C6, amended. Let the engine compute a plan for a ring with pairwise different phase ids
  and apply it through the enforcer, and let phases \<open>i\<close> and \<open>j\<close> be of the same
  kind (both left-turn or both not). If the total queue of \<open>i\<close> is greater than the
  total queue of \<open>j\<close>, which is not negative, and moreover the ideal green of
  \<open>i\<close> (the time to clear its longest lane queue) is no less than that of \<open>j\<close>
  and the walk time of \<open>i\<close> no less than that of \<open>j\<close>, then after the plan is
  applied the green of \<open>i\<close> is no less than the green of \<open>j\<close>, for timing
  constraints in which half the minimum protected-left green is at most the minimum
  green and the clearance intervals of all phases fit into the maximum cycle.
\<close>

theorem heavier_demand_no_less_green:
  assumes plan: "compute_cycle_plan eng ring = Inr (plan, eng')"
    and ap: "apply_plan eng' plan ring = Inr ring'"
    and dist: "distinct (map phase_id (phases ring))"
    and i: "i < length (phases ring)" and j: "j < length (phases ring)"
    and kind: "is_left_turn (phases ring ! i) = is_left_turn (phases ring ! j)"
    and q: "total_queue (phase_demands plan ! j) < total_queue (phase_demands plan ! i)"
    and q0: "0 \<le> total_queue (phase_demands plan ! j)"
    and ideal: "ideal_green_s (phase_demands plan ! j) \<le> ideal_green_s (phase_demands plan ! i)"
    and walk: "walk_time_s (phases ring ! j) \<le> walk_time_s (phases ring ! i)"
    and cfg1: "min_protected_left_green_s (timing eng) / 2 \<le> min_green_s (timing eng)"
    and cfg2: "real (length (phases ring)) *
                 (yellow_clearance_s (timing eng) + all_red_clearance_s (timing eng))
               \<le> max_cycle_s (timing eng)"
  shows "green_time_s (phases ring' ! j) \<le> green_time_s (phases ring' ! i)"
proof -
  let ?ps = "phases ring" and ?c = "timing eng" and ?ds = "phase_demands plan"
  from plan_green [OF plan dist] obtain W A where te: "timing eng' = ?c"
    and W: "0 < W" and A: "0 \<le> A"
    and f: "\<And>k. k < length ?ps \<Longrightarrow>
          (needs_protected_left (?ds ! k) \<longleftrightarrow>
             is_left_turn (?ps ! k) \<and> left_turn_queue_threshold ?c \<le> total_queue (?ds ! k)) \<and>
          map_of (phase_greens plan) (phase_id (?ps ! k)) =
            Some (weight_of ?c (?ps ! k) (?ds ! k) / W * A)"
    by blast
  let ?qs = "map (apply_to_phase plan) ?ps"
  have w: "weight_of ?c (?ps ! j) (?ds ! j) \<le> weight_of ?c (?ps ! i) (?ds ! i)"
    using weight_of_mono [OF kind _ _ q q0 ideal cfg1] f [OF i] f [OF j] by blast
  have gi: "green_time_s (?qs ! i) = weight_of ?c (?ps ! i) (?ds ! i) / W * A"
    and gj: "green_time_s (?qs ! j) = weight_of ?c (?ps ! j) (?ds ! j) / W * A"
    using f [OF i] f [OF j] i j by (simp_all add: apply_to_phase_fields)
  have "green_time_s (?qs ! j) \<le> green_time_s (?qs ! i)"
    unfolding gi gj using w W A by (simp add: divide_right_mono mult_right_mono)
  then have nl: "no_less (?qs ! i) (?qs ! j)"
    using kind walk i j by (simp add: no_less_def apply_to_phase_fields)
  from ap te obtain ys where ec: "enforce_cycle ?c ?qs = Inr ys" and r: "ring' = ring\<lparr>phases := ys\<rparr>"
    by (auto simp: apply_plan_def split: sum.splits)
  have "no_less (ys ! i) (ys ! j)"
    using enforce_cycle_mono [OF ec _ _ nl] i j cfg2 by simp
  then show ?thesis by (simp add: r no_less_def)
qed

theorem heavier_demand_no_less_green_witness:
  "\<exists>plan eng' ring'.
     compute_cycle_plan ex_engine_s1 ex_ring = Inr (plan, eng') \<and>
     apply_plan eng' plan ex_ring = Inr ring' \<and>
     distinct (map phase_id (phases ex_ring)) \<and>
     1 < length (phases ex_ring) \<and> 3 < length (phases ex_ring) \<and>
     is_left_turn (phases ex_ring ! 1) = is_left_turn (phases ex_ring ! 3) \<and>
     total_queue (phase_demands plan ! 3) < total_queue (phase_demands plan ! 1) \<and>
     0 \<le> total_queue (phase_demands plan ! 3) \<and>
     ideal_green_s (phase_demands plan ! 3) \<le> ideal_green_s (phase_demands plan ! 1) \<and>
     walk_time_s (phases ex_ring ! 3) \<le> walk_time_s (phases ex_ring ! 1) \<and>
     min_protected_left_green_s (timing ex_engine_s1) / 2 \<le> min_green_s (timing ex_engine_s1) \<and>
     real (length (phases ex_ring)) *
       (yellow_clearance_s (timing ex_engine_s1) + all_red_clearance_s (timing ex_engine_s1))
       \<le> max_cycle_s (timing ex_engine_s1) \<and>
     map green_time_s (phases ring') = [496 / 47, 60, 496 / 47, 145 / 7] \<and>
     green_time_s (phases ring' ! 3) \<le> green_time_s (phases ring' ! 1)"
proof -
  let ?ds = "[\<lparr> demand_phase_id = 1, total_queue = 0, ideal_green_s = 0,
                 degree_of_saturation = 0, needs_protected_left = False \<rparr>,
              \<lparr> demand_phase_id = 2, total_queue = 27, ideal_green_s = 32,
                 degree_of_saturation = 54 / 7, needs_protected_left = False \<rparr>,
              \<lparr> demand_phase_id = 3, total_queue = 0, ideal_green_s = 0,
                 degree_of_saturation = 0, needs_protected_left = False \<rparr>,
              \<lparr> demand_phase_id = 4, total_queue = 3, ideal_green_s = 6,
                 degree_of_saturation = 6 / 7, needs_protected_left = False \<rparr>]"
  have "\<exists>plan eng'. compute_cycle_plan ex_engine_s1 ex_ring = Inr (plan, eng') \<and>
      timing eng' = default_timing \<and> phase_demands plan = ?ds \<and>
      phase_greens plan = [(1, 496 / 47), (2, 3968 / 47), (3, 496 / 47), (4, 868 / 47)]"
    by (simp add: ad_defs ex_engine_s1_def ex_intersection_s1_def ex_approach_def ex_lane_def
          ex_ring_def default_timing_def)
  then obtain plan eng' where
    p: "compute_cycle_plan ex_engine_s1 ex_ring = Inr (plan, eng')"
    and te: "timing eng' = default_timing"
    and ds: "phase_demands plan = ?ds"
    and pg: "phase_greens plan = [(1, 496 / 47), (2, 3968 / 47), (3, 496 / 47), (4, 868 / 47)]"
    by auto
  have "\<exists>ring'. apply_plan eng' plan ex_ring = Inr ring' \<and>
      map green_time_s (phases ring') = [496 / 47, 60, 496 / 47, 145 / 7]"
    by (simp add: apply_plan_def apply_to_phase_def enforce_cycle_def enforce_def
          ped_clearance_s_def extend_to_minimum_def reduce_to_maximum_def total_phase_time_s_def
          Let_def te ds pg ex_ring_def default_timing_def)
  then obtain ring' where a: "apply_plan eng' plan ex_ring = Inr ring'"
    and g: "map green_time_s (phases ring') = [496 / 47, 60, 496 / 47, 145 / 7]" by auto
  have h: "distinct (map phase_id (phases ex_ring))" "1 < length (phases ex_ring)"
    "3 < length (phases ex_ring)"
    "is_left_turn (phases ex_ring ! 1) = is_left_turn (phases ex_ring ! 3)"
    "walk_time_s (phases ex_ring ! 3) \<le> walk_time_s (phases ex_ring ! 1)"
    by (simp_all add: ex_ring_def)
  have q: "total_queue (phase_demands plan ! 3) < total_queue (phase_demands plan ! 1)"
    "0 \<le> total_queue (phase_demands plan ! 3)"
    "ideal_green_s (phase_demands plan ! 3) \<le> ideal_green_s (phase_demands plan ! 1)"
    by (simp_all add: ds)
  have c: "min_protected_left_green_s (timing ex_engine_s1) / 2 \<le> min_green_s (timing ex_engine_s1)"
    "real (length (phases ex_ring)) *
       (yellow_clearance_s (timing ex_engine_s1) + all_red_clearance_s (timing ex_engine_s1))
       \<le> max_cycle_s (timing ex_engine_s1)"
    by (simp_all add: ex_engine_s1_def default_timing_def ex_ring_def)
  from heavier_demand_no_less_green [OF p a h(1,2,3,4) q h(5) c]
  have le: "green_time_s (phases ring' ! 3) \<le> green_time_s (phases ring' ! 1)" .
  show ?thesis
    apply (rule exI [of _ plan], rule exI [of _ eng'], rule exI [of _ ring'])
    by (intro conjI) (rule p a h q c g le)+
qed

end
